theory Spec2Isabelle
  imports Main "HOL-Library.Word" "HOL-Library.Multiset" "HOL-Library.AList"
begin

section \<open>Bytes, errors and the names imported from outside the two source files\<close>

text \<open>
  Python \<open>bytes\<close> are lists of 8-bit words; Python integers are \<open>int\<close>.
  Every exception the code can raise is a value of \<open>error\<close>, and a function that
  can raise returns \<open>error + 'a\<close> (\<open>Inl\<close> the exception).
\<close>

type_synonym byte = "8 word"
type_synonym bytes = "byte list"
type_synonym address = "string \<times> int"

datatype error =
    BrokenMessageError string
  | BufferExhaustedError
  | TimeoutError
  | OSError string
  | IndexError
  | KeyError string

definition HEADER_SIMPLE :: bytes where
  "HEADER_SIMPLE = [0xFF, 0xFF, 0xFF, 0xFF]"

definition HEADER_MULTI :: bytes where
  "HEADER_MULTI = [0xFE, 0xFF, 0xFF, 0xFF]"

definition A2S_CHALLENGE_RESPONSE :: int where
  "A2S_CHALLENGE_RESPONSE = 0x41"

text \<open>
  Modelled from the spec: the fragment record of \<open>a2s.a2s_fragment\<close> (not among the
  source files). \<open>recv\<close> reads three attributes of it: the fragment id, the declared
  fragment count and the payload. The decoder \<open>decode_fragment\<close> itself is a
  parameter of \<open>recv\<close> below.
\<close>

record fragment =
  fragment_id :: nat
  fragment_count :: nat
  payload :: bytes

subsection \<open>Python's \<open>hex\<close> and the \<open>repr\<close> of a bytes object\<close>

definition hex_digit :: "nat \<Rightarrow> char" where
  "hex_digit d = ''0123456789abcdef'' ! (d mod 16)"

function hex_digits :: "nat \<Rightarrow> string" where
  "hex_digits n = (if n < 16 then [hex_digit n] else hex_digits (n div 16) @ [hex_digit (n mod 16)])"
  by pat_completeness auto
termination
  by (relation "measure (\<lambda>n. n)") auto

declare hex_digits.simps [simp del]

definition hex :: "int \<Rightarrow> string" where
  "hex n = (if n < 0 then ''-0x'' @ hex_digits (nat (- n)) else ''0x'' @ hex_digits (nat n))"

text \<open>Reading hexadecimal digits back, to say what number a text written by \<open>hex\<close> denotes.\<close>

definition hex_digit_value :: "char \<Rightarrow> nat" where
  "hex_digit_value c =
     (let n = (of_char c :: nat) in
      if 48 \<le> n \<and> n \<le> 57 then n - 48
      else if 97 \<le> n \<and> n \<le> 102 then n - 87
      else 0)"

definition hex_value :: "string \<Rightarrow> nat" where
  "hex_value s = foldl (\<lambda>acc c. 16 * acc + hex_digit_value c) 0 s"

text \<open>
  \<open>repr\<close> of a bytes object, as CPython writes it: the quote is \<open>'\<close> unless the
  bytes hold a \<open>'\<close> and no \<open>"\<close>; the quote and the backslash are escaped, tab, newline
  and carriage return are written \<open>\t\<close>, \<open>\n\<close>, \<open>\r\<close>, any other byte outside
  printable ASCII is written \<open>\xhh\<close> with two lower-case hexadecimal digits.
\<close>

definition repr_quote :: "bytes \<Rightarrow> char" where
  "repr_quote b = (if 0x27 \<in> set b \<and> 0x22 \<notin> set b then CHR 0x22 else CHR 0x27)"

definition repr_byte :: "char \<Rightarrow> byte \<Rightarrow> string" where
  "repr_byte quote c =
     (if of_char quote = c \<or> c = 0x5C then [CHR 0x5C, char_of (unat c)]
      else if c = 0x09 then [CHR 0x5C, CHR ''t'']
      else if c = 0x0A then [CHR 0x5C, CHR ''n'']
      else if c = 0x0D then [CHR 0x5C, CHR ''r'']
      else if c < 0x20 \<or> c \<ge> 0x7F
        then [CHR 0x5C, CHR ''x'', hex_digit (unat c div 16), hex_digit (unat c mod 16)]
      else [char_of (unat c)])"

definition bytes_repr :: "bytes \<Rightarrow> string" where
  "bytes_repr b =
     (let quote = repr_quote b in ''b'' @ [quote] @ concat (map (repr_byte quote) b) @ [quote])"

text \<open>
  Reading the \<open>repr\<close> of a bytes object back: the escapes are undone, and
  \<open>bytes_unrepr\<close> drops the leading \<open>b\<close> and the two quotes first.
\<close>

fun unescape :: "string \<Rightarrow> bytes" where
  "unescape [] = []"
| "unescape [c] = [of_char c]"
| "unescape (c # e # s) =
     (if c \<noteq> CHR 0x5C then of_char c # unescape (e # s)
      else if e = CHR ''t'' then 0x09 # unescape s
      else if e = CHR ''n'' then 0x0A # unescape s
      else if e = CHR ''r'' then 0x0D # unescape s
      else if e = CHR ''x'' then
        (case s of
           h # l # s' \<Rightarrow> word_of_nat (16 * hex_digit_value h + hex_digit_value l) # unescape s'
         | _ \<Rightarrow> [])
      else of_char e # unescape s)"

definition bytes_unrepr :: "string \<Rightarrow> bytes" where
  "bytes_unrepr s = unescape (butlast (drop 2 s))"

section \<open>The UDP socket\<close>

text \<open>
  The socket of an \<open>A2SStream\<close> with the network behind it. \<open>inbox\<close> is what the
  successive calls of \<open>recv\<close> will meet, in order: a datagram, or the exception the call
  raises. A call that finds the inbox empty waits until the socket's timeout and raises the
  timeout. \<open>recv(bufsize)\<close> hands over at most \<open>bufsize\<close> bytes of the datagram and the
  rest of the datagram is lost. \<open>send_faults\<close> is what the successive calls of \<open>sendto\<close>
  will meet: \<open>None\<close> (or nothing left) lets the datagram out, \<open>Some e\<close> raises \<open>e\<close>.
  \<open>outbox\<close> lists the datagrams sent so far with their destination. A closed socket
  refuses both operations; closing it again changes nothing.
\<close>

datatype recv_event = Datagram bytes | RecvRaises error

record udp_socket =
  sock_closed :: bool
  inbox :: "recv_event list"
  send_faults :: "error option list"
  outbox :: "(bytes \<times> address) list"

definition sock_sendto :: "bytes \<Rightarrow> address \<Rightarrow> udp_socket \<Rightarrow> (error + unit) \<times> udp_socket" where
  "sock_sendto packet addr s =
     (if sock_closed s then (Inl (OSError ''Bad file descriptor''), s)
      else case send_faults s of
             Some e # rest \<Rightarrow> (Inl e, s\<lparr>send_faults := rest\<rparr>)
           | None # rest \<Rightarrow> (Inr (), s\<lparr>send_faults := rest, outbox := outbox s @ [(packet, addr)]\<rparr>)
           | [] \<Rightarrow> (Inr (), s\<lparr>outbox := outbox s @ [(packet, addr)]\<rparr>))"

definition sock_recv :: "nat \<Rightarrow> udp_socket \<Rightarrow> (error + bytes) \<times> udp_socket" where
  "sock_recv bufsize s =
     (if sock_closed s then (Inl (OSError ''Bad file descriptor''), s)
      else case inbox s of
             [] \<Rightarrow> (Inl TimeoutError, s)
           | Datagram d # rest \<Rightarrow> (Inr (take bufsize d), s\<lparr>inbox := rest\<rparr>)
           | RecvRaises e # rest \<Rightarrow> (Inl e, s\<lparr>inbox := rest\<rparr>))"

definition sock_close :: "udp_socket \<Rightarrow> udp_socket" where
  "sock_close s = s\<lparr>sock_closed := True\<rparr>"

section \<open>The transport: class \<open>A2SStream\<close>\<close>

record A2SStream =
  address :: address
  socket :: udp_socket

text \<open>
  \<open>A2SStream.__init__\<close>: a fresh open socket. The network the socket will talk to is a
  parameter: what will arrive and which sends will fail.
\<close>

definition A2SStream_init :: "recv_event list \<Rightarrow> error option list \<Rightarrow> address \<Rightarrow> A2SStream" where
  "A2SStream_init arriving faults addr =
     \<lparr>address = addr,
      socket = \<lparr>sock_closed = False, inbox = arriving, send_faults = faults, outbox = []\<rparr>\<rparr>"

definition send :: "A2SStream \<Rightarrow> bytes \<Rightarrow> (error + unit) \<times> A2SStream" where
  "send self data =
     (let packet = HEADER_SIMPLE @ data in
      case sock_sendto packet (address self) (socket self) of
        (r, s) \<Rightarrow> (r, self\<lparr>socket := s\<rparr>))"

definition startswith :: "bytes \<Rightarrow> bytes \<Rightarrow> bool" where
  "startswith b p = (take (length p) b = p)"

text \<open>
  The \<open>while\<close> loop of \<open>recv\<close>: as long as fewer fragments are collected than the
  first collected fragment declares, receive one more datagram, drop its first four bytes and
  decode the rest. Each round adds one fragment, so the loop ends.
\<close>

function collect_fragments ::
  "(bytes \<Rightarrow> error + fragment) \<Rightarrow> fragment list \<Rightarrow> udp_socket \<Rightarrow> (error + fragment list) \<times> udp_socket" where
  "collect_fragments decode_fragment fragments s =
     (case fragments of
        [] \<Rightarrow> (Inl IndexError, s)
      | f0 # _ \<Rightarrow>
          if length fragments < fragment_count f0 then
            (case sock_recv 4096 s of
               (Inl e, s') \<Rightarrow> (Inl e, s')
             | (Inr packet, s') \<Rightarrow>
                 (case decode_fragment (drop 4 packet) of
                    Inl e \<Rightarrow> (Inl e, s')
                  | Inr f \<Rightarrow> collect_fragments decode_fragment (fragments @ [f]) s'))
          else (Inr fragments, s))"
  by pat_completeness auto
termination
  by (relation "measure (\<lambda>(d, fragments, s). fragment_count (hd fragments) - length fragments)") auto

declare collect_fragments.simps [simp del]

definition reassemble :: "fragment list \<Rightarrow> bytes" where
  "reassemble fragments =
     (let reassembled = concat (map payload (sort_key fragment_id fragments)) in
      if startswith reassembled [0xFF, 0xFF, 0xFF, 0xFF] then drop 4 reassembled else reassembled)"

definition recv :: "(bytes \<Rightarrow> error + fragment) \<Rightarrow> A2SStream \<Rightarrow> (error + bytes) \<times> A2SStream" where
  "recv decode_fragment self =
     (case sock_recv 65535 (socket self) of
        (Inl e, s) \<Rightarrow> (Inl e, self\<lparr>socket := s\<rparr>)
      | (Inr packet, s) \<Rightarrow>
          (let header = take 4 packet; data = drop 4 packet in
           if header = HEADER_SIMPLE then (Inr data, self\<lparr>socket := s\<rparr>)
           else if header = HEADER_MULTI then
             (case decode_fragment data of
                Inl e \<Rightarrow> (Inl e, self\<lparr>socket := s\<rparr>)
              | Inr f \<Rightarrow>
                  (case collect_fragments decode_fragment [f] s of
                     (Inl e, s') \<Rightarrow> (Inl e, self\<lparr>socket := s'\<rparr>)
                   | (Inr fragments, s') \<Rightarrow> (Inr (reassemble fragments), self\<lparr>socket := s'\<rparr>)))
           else (Inl (BrokenMessageError (''Invalid packet header: '' @ bytes_repr header)),
                 self\<lparr>socket := s\<rparr>)))"

definition request :: "(bytes \<Rightarrow> error + fragment) \<Rightarrow> A2SStream \<Rightarrow> bytes \<Rightarrow> (error + bytes) \<times> A2SStream" where
  "request decode_fragment self payload_bytes =
     (case send self payload_bytes of
        (Inl e, self') \<Rightarrow> (Inl e, self')
      | (Inr _, self') \<Rightarrow> recv decode_fragment self')"

definition close :: "A2SStream \<Rightarrow> A2SStream" where
  "close self = self\<lparr>socket := sock_close (socket self)\<rparr>"

text \<open>\<open>A2SStream.__del__\<close>, run when the object is discarded.\<close>

definition A2SStream_del :: "A2SStream \<Rightarrow> A2SStream" where
  "A2SStream_del self = close self"

text \<open>
  Modelled from the spec: \<open>decode_fragment\<close> of \<open>a2s.a2s_fragment\<close> is not among the
  source files; the spec gives the fragment header as fragment id, fragment count, then the
  payload, and a malformed-fragment error for a body shorter than the header, without the
  byte layout. This decoder reads one byte for each of the two header fields. \<open>recv\<close>
  takes the decoder as a parameter and the theorems hold for every decoder; this one is
  used where a concrete decoder is needed.
\<close>

definition decode_fragment_spec :: "bytes \<Rightarrow> error + fragment" where
  "decode_fragment_spec body =
     (case body of
        i # n # rest \<Rightarrow> Inr \<lparr>fragment_id = unat i, fragment_count = unat n, payload = rest\<rparr>
      | _ \<Rightarrow> Inl (BrokenMessageError ''Malformed fragment''))"

section \<open>The request driver: \<open>request_sync_impl\<close> and \<open>request_sync\<close>\<close>

text \<open>
  Modelled from the spec: \<open>ByteReader\<close> of \<open>a2s.byteio\<close> is not among the source files.
  The spec describes it as sequential little-endian primitive reads over the assembled
  buffer. The reader holds the bytes not yet read; a read of more bytes than are left
  raises.
\<close>

record ByteReader =
  unread :: bytes
  endian :: string
  encoding :: string

definition ByteReader_init :: "bytes \<Rightarrow> string \<Rightarrow> string \<Rightarrow> ByteReader" where
  "ByteReader_init data e enc = \<lparr>unread = data, endian = e, encoding = enc\<rparr>"

fun le_uint :: "bytes \<Rightarrow> int" where
  "le_uint [] = 0"
| "le_uint (b # bs) = uint b + 256 * le_uint bs"

definition read_uint8 :: "ByteReader \<Rightarrow> error + (int \<times> ByteReader)" where
  "read_uint8 r =
     (case unread r of
        [] \<Rightarrow> Inl BufferExhaustedError
      | b # rest \<Rightarrow> Inr (uint b, r\<lparr>unread := rest\<rparr>))"

definition read_uint32 :: "ByteReader \<Rightarrow> error + (int \<times> ByteReader)" where
  "read_uint32 r =
     (if length (unread r) < 4 then Inl BufferExhaustedError
      else Inr (le_uint (take 4 (unread r)), r\<lparr>unread := drop 4 (unread r)\<rparr>))"

text \<open>
  A protocol kind (\<open>InfoProtocol\<close>, \<open>PlayersProtocol\<close>, \<open>RulesProtocol\<close>; none of them
  among the source files) is the three operations the driver calls on it. The result type
  \<open>'r\<close> and the type \<open>'t\<close> of clock readings are left open.
\<close>

record ('t, 'r) protocol =
  serialize_request :: "int \<Rightarrow> bytes"
  validate_response_type :: "int \<Rightarrow> bool"
  deserialize_response :: "ByteReader \<Rightarrow> int \<Rightarrow> 't option \<Rightarrow> error + 'r"

text \<open>
  \<open>time.monotonic()\<close>: the clock is the sequence of the values its successive calls
  return; each call takes the next one.
\<close>

record 't timer =
  readings :: "nat \<Rightarrow> 't"
  ticks :: nat

definition time_monotonic :: "'t timer \<Rightarrow> 't \<times> 't timer" where
  "time_monotonic clk = (readings clk (ticks clk), clk\<lparr>ticks := Suc (ticks clk)\<rparr>)"

text \<open>
  \<open>request_sync_impl\<close>. \<open>DEFAULT_RETRIES\<close> (of \<open>a2s.defaults\<close>, not among the source
  files) and \<open>decode_fragment\<close> are parameters. The clock and the stream are passed in and
  returned. The recursion is the source's; the distance of \<open>retries\<close> to
  \<open>DEFAULT_RETRIES\<close> shrinks with every call.
\<close>

function request_sync_impl ::
  "(bytes \<Rightarrow> error + fragment) \<Rightarrow> int \<Rightarrow> 't::minus timer \<Rightarrow> A2SStream \<Rightarrow> string \<Rightarrow> ('t, 'r) protocol \<Rightarrow>
   int \<Rightarrow> int \<Rightarrow> 't option \<Rightarrow> (error + 'r) \<times> 't timer \<times> A2SStream" where
  "request_sync_impl decode_fragment DEFAULT_RETRIES clk conn enc a2s_proto challenge retries ping =
     (case time_monotonic clk of (send_time, clk1) \<Rightarrow>
      (case request decode_fragment conn (serialize_request a2s_proto challenge) of
         (Inl e, conn1) \<Rightarrow> (Inl e, clk1, conn1)
       | (Inr resp_data, conn1) \<Rightarrow>
          (case time_monotonic clk1 of (recv_time, clk2) \<Rightarrow>
           (let ping1 = (if retries = 0 then Some (recv_time - send_time) else ping);
                reader = ByteReader_init resp_data ''<'' enc
            in case read_uint8 reader of
                 Inl e \<Rightarrow> (Inl e, clk2, conn1)
               | Inr (response_type, reader1) \<Rightarrow>
                   if response_type = A2S_CHALLENGE_RESPONSE then
                     (if retries \<ge> DEFAULT_RETRIES then
                        (Inl (BrokenMessageError ''Server keeps sending challenge responses''), clk2, conn1)
                      else
                        (case read_uint32 reader1 of
                           Inl e \<Rightarrow> (Inl e, clk2, conn1)
                         | Inr (challenge1, reader2) \<Rightarrow>
                             request_sync_impl decode_fragment DEFAULT_RETRIES clk2 conn1 enc a2s_proto
                               challenge1 (retries + 1) ping1))
                   else if \<not> validate_response_type a2s_proto response_type then
                     (Inl (BrokenMessageError (''Invalid response type: '' @ hex response_type)), clk2, conn1)
                   else (deserialize_response a2s_proto reader1 response_type ping1, clk2, conn1)))))"
  by pat_completeness auto
termination
  by (relation "measure (\<lambda>(d, m, clk, conn, enc, p, c, retries, ping). nat (m - retries))") auto

declare request_sync_impl.simps [simp del]

text \<open>
  \<open>request_sync\<close>. The network the new socket will meet is a parameter. The stream is
  returned as the call leaves it: closed after a response, and as \<open>request_sync_impl\<close>
  left it when that raised, since then \<open>conn.close()\<close> is not reached. The timeout given to
  the socket decides when a receive on an empty inbox gives up and has no other effect.
\<close>

definition request_sync ::
  "(bytes \<Rightarrow> error + fragment) \<Rightarrow> int \<Rightarrow> recv_event list \<Rightarrow> error option list \<Rightarrow> 't::minus timer \<Rightarrow>
   address \<Rightarrow> string \<Rightarrow> ('t, 'r) protocol \<Rightarrow> (error + 'r) \<times> 't timer \<times> A2SStream" where
  "request_sync decode_fragment DEFAULT_RETRIES arriving faults clk addr enc a2s_proto =
     (let conn = A2SStream_init arriving faults addr in
      case request_sync_impl decode_fragment DEFAULT_RETRIES clk conn enc a2s_proto 0 0 None of
        (Inl e, clk1, conn1) \<Rightarrow> (Inl e, clk1, conn1)
      | (Inr response, clk1, conn1) \<Rightarrow> (Inr response, clk1, close conn1))"

section \<open>The record helper: \<open>DataclsMeta\<close> and \<open>DataclsBase\<close>\<close>

text \<open>
  Python values with identity. A value is \<open>None\<close>, an immutable integer or string, or a
  reference to a mutable object (a list or a dict) in the heap. The heap gives every address
  its object and knows the next free address; the addresses below it are the allocated ones.
  \<open>copy.copy\<close> returns an immutable value as it is and, for a reference, allocates a new
  object with the same items (the items themselves are not copied).
\<close>

type_synonym addr = nat

datatype pyval = PNone | PInt int | PStr string | PRef addr

datatype pyobj = PList "pyval list" | PDict "(pyval \<times> pyval) list"

record heap =
  cells :: "addr \<Rightarrow> pyobj"
  next_addr :: addr

definition copy_copy :: "pyval \<Rightarrow> heap \<Rightarrow> pyval \<times> heap" where
  "copy_copy v h =
     (case v of
        PRef a \<Rightarrow>
          (PRef (next_addr h),
           h\<lparr>cells := (cells h)(next_addr h := cells h a), next_addr := Suc (next_addr h)\<rparr>)
      | _ \<Rightarrow> (v, h))"

text \<open>
  The namespace \<open>prop\<close> of a class body: the keys of \<open>prop["__annotations__"]\<close> in
  their order when the body has annotations (the key is absent otherwise), and the other
  names of the body with their values.
\<close>

record class_namespace =
  annotations :: "string list option"
  members :: "(string \<times> pyval) list"

record datacls =
  cls_name :: string
  cls_bases :: "string list"
  slots :: "string list"
  defaults :: "(string \<times> pyval) list"
  cls_members :: "(string \<times> pyval) list"

text \<open>
  One round of the loop of \<open>DataclsMeta.__new__\<close>, on the ordered dict \<open>values\<close> and
  the namespace: an annotated name with a class variable takes its value as default and the
  class variable is removed; any other annotated name takes \<open>None\<close>.
\<close>

definition collect_default ::
  "string \<Rightarrow> (string \<times> pyval) list \<times> (string \<times> pyval) list \<Rightarrow>
   (string \<times> pyval) list \<times> (string \<times> pyval) list" where
  "collect_default member_name acc =
     (case acc of (values, prop) \<Rightarrow>
        (case map_of prop member_name of
           Some v \<Rightarrow> (AList.update member_name v values, AList.delete member_name prop)
         | None \<Rightarrow> (AList.update member_name PNone values, prop)))"

definition DataclsMeta_new :: "string \<Rightarrow> string list \<Rightarrow> class_namespace \<Rightarrow> error + datacls" where
  "DataclsMeta_new name bases prop =
     (case annotations prop of
        None \<Rightarrow> Inl (KeyError ''__annotations__'')
      | Some ann \<Rightarrow>
          (case fold collect_default ann ([], members prop) of
             (values, prop1) \<Rightarrow>
               Inr \<lparr>cls_name = name, cls_bases = ''DataclsBase'' # bases, slots = map fst values,
                    defaults = values, cls_members = prop1\<rparr>))"

text \<open>
  \<open>DataclsBase.__init__\<close>: the loop over \<open>self._defaults.items()\<close>. The instance is
  the list of its attributes in the order they were set.
\<close>

fun init_fields ::
  "(string \<times> pyval) list \<Rightarrow> (string \<rightharpoonup> pyval) \<Rightarrow> (string \<times> pyval) list \<Rightarrow> heap \<Rightarrow>
   (string \<times> pyval) list \<times> heap" where
  "init_fields [] kwargs attrs h = (attrs, h)"
| "init_fields ((name, value) # items) kwargs attrs h =
     (let value1 = (case kwargs name of Some v \<Rightarrow> v | None \<Rightarrow> value) in
      case copy_copy value1 h of
        (c, h1) \<Rightarrow> init_fields items kwargs (AList.update name c attrs) h1)"

definition DataclsBase_init :: "datacls \<Rightarrow> (string \<rightharpoonup> pyval) \<Rightarrow> heap \<Rightarrow> (string \<times> pyval) list \<times> heap" where
  "DataclsBase_init cls kwargs h = init_fields (defaults cls) kwargs [] h"

section \<open>Notions for the statements\<close>

text \<open>
  Words for the statements about the driver: the datagram of a challenge response with the
  bytes \<open>cb\<close> after the tag, the challenge value these bytes carry (the first four,
  little-endian), the datagram the driver sends for a challenge, and the
  difference of the first two clock readings of a call, which is receive time minus send time
  of its first attempt.
\<close>

definition challenge_datagram :: "bytes \<Rightarrow> bytes" where
  "challenge_datagram cb = HEADER_SIMPLE @ [0x41] @ cb"

definition challenge_of :: "bytes \<Rightarrow> int" where
  "challenge_of cb = le_uint (take 4 cb)"

definition request_packet :: "('t, 'r) protocol \<Rightarrow> A2SStream \<Rightarrow> int \<Rightarrow> bytes \<times> address" where
  "request_packet a2s_proto conn challenge =
     (HEADER_SIMPLE @ serialize_request a2s_proto challenge, address conn)"

definition first_ping :: "'t::minus timer \<Rightarrow> 't" where
  "first_ping clk = readings clk (Suc (ticks clk)) - readings clk (ticks clk)"

text \<open>
  Words for the statements about the record helper: a value is allocated in a heap when it is
  no reference or refers below the next free address; \<open>v\<close> is a shallow copy of
  \<open>src\<close>, made between the heaps \<open>h\<close> and \<open>h1\<close>, when \<open>src\<close> is immutable
  and \<open>v\<close> is \<open>src\<close>, or \<open>src\<close> refers to an object and \<open>v\<close> refers to an
  object allocated in between that holds the same items; the source of a field is the keyword
  argument of its name when there is one, else the class variable of its name, else
  \<open>None\<close>.
\<close>

definition allocated :: "heap \<Rightarrow> pyval \<Rightarrow> bool" where
  "allocated h v = (case v of PRef a \<Rightarrow> a < next_addr h | _ \<Rightarrow> True)"

definition shallow_copy_of :: "heap \<Rightarrow> heap \<Rightarrow> pyval \<Rightarrow> pyval \<Rightarrow> bool" where
  "shallow_copy_of h h1 src v =
     (case src of
        PRef a \<Rightarrow>
          (case v of
             PRef a1 \<Rightarrow> next_addr h \<le> a1 \<and> a1 < next_addr h1 \<and> cells h1 a1 = cells h a
           | _ \<Rightarrow> False)
      | _ \<Rightarrow> v = src)"

definition default_of :: "(string \<times> pyval) list \<Rightarrow> string \<Rightarrow> pyval" where
  "default_of prop name = (case map_of prop name of Some d \<Rightarrow> d | None \<Rightarrow> PNone)"

definition field_source :: "class_namespace \<Rightarrow> (string \<rightharpoonup> pyval) \<Rightarrow> string \<Rightarrow> pyval" where
  "field_source prop kwargs name =
     (case kwargs name of Some v \<Rightarrow> v | None \<Rightarrow> default_of (members prop) name)"

section \<open>Sample data\<close>

text \<open>
  Datagrams for the concrete runs, with the fragment header \<open>decode_fragment_spec\<close>
  reads (fragment id, fragment count): a fragment of 4100 payload bytes, short fragments, and
  a fragment that declares the count zero.
\<close>

definition big_datagram :: bytes where
  "big_datagram = HEADER_MULTI @ [0, 2] @ replicate 4100 0x61"

definition small_datagram :: bytes where
  "small_datagram = HEADER_MULTI @ [1, 2, 0x62]"

definition sample_address :: address where
  "sample_address = (''192.0.2.7'', 27015)"

definition zero_count_datagram :: bytes where
  "zero_count_datagram = HEADER_MULTI @ [0, 0, 0x61]"

definition frag_datagram :: "byte \<Rightarrow> byte \<Rightarrow> bytes \<Rightarrow> bytes" where
  "frag_datagram i n p = HEADER_MULTI @ [i, n] @ p"

text \<open>
  Modelled from the spec: the protocol kinds are not among the source files. This sample kind
  sends the tag \<open>0x55\<close> with the challenge in four little-endian bytes, accepts the
  response type \<open>0x44\<close>, and its deserializer returns the unread bytes and the ping it was
  given. The sample clock reads 0, 10, 40, 90, ...
\<close>

definition le_bytes4 :: "int \<Rightarrow> bytes" where
  "le_bytes4 c = [word_of_int c, word_of_int (c div 256), word_of_int (c div 65536),
                  word_of_int (c div 16777216)]"

definition sample_protocol :: "(int, bytes \<times> int option) protocol" where
  "sample_protocol =
     \<lparr>serialize_request = (\<lambda>challenge. 0x55 # le_bytes4 challenge),
      validate_response_type = (\<lambda>t. t = 0x44),
      deserialize_response = (\<lambda>reader t ping. Inr (unread reader, ping))\<rparr>"

definition sample_clock :: "int timer" where
  "sample_clock = \<lparr>readings = (\<lambda>n. 10 * int n * int n), ticks = 0\<rparr>"

text \<open>
  A sample class body: \<open>name\<close> annotated without default, \<open>tags\<close> with a list as
  default, \<open>score\<close> with 0; the class \<open>DataclsMeta\<close> builds from it; and a heap with
  two lists.
\<close>

definition sample_namespace :: class_namespace where
  "sample_namespace =
     \<lparr>annotations = Some [''name'', ''tags'', ''score''],
      members = [(''tags'', PRef 0), (''score'', PInt 0)]\<rparr>"

definition sample_cls :: datacls where
  "sample_cls =
     \<lparr>cls_name = ''Sample'', cls_bases = [''DataclsBase''], slots = [''name'', ''tags'', ''score''],
      defaults = [(''name'', PNone), (''tags'', PRef 0), (''score'', PInt 0)],
      cls_members = []\<rparr>"

definition sample_heap :: heap where
  "sample_heap =
     \<lparr>cells = (\<lambda>a. PList [])(0 := PList [PStr ''a''], 1 := PList [PInt 7]), next_addr = 2\<rparr>"

section \<open>Properties of \<open>hex\<close> and \<open>repr\<close>\<close>

lemma hex_digit_value_hex_digit: "d < 16 \<Longrightarrow> hex_digit_value (hex_digit d) = d"
proof -
  assume "d < 16"
  then have "d = 0 \<or> d = 1 \<or> d = 2 \<or> d = 3 \<or> d = 4 \<or> d = 5 \<or> d = 6 \<or> d = 7 \<or> d = 8
      \<or> d = 9 \<or> d = 10 \<or> d = 11 \<or> d = 12 \<or> d = 13 \<or> d = 14 \<or> d = 15" by arith
  then show ?thesis
    by (elim disjE) (simp_all add: hex_digit_def hex_digit_value_def)
qed

lemma hex_value_snoc: "hex_value (s @ [c]) = 16 * hex_value s + hex_digit_value c"
  by (simp add: hex_value_def)

lemma hex_value_hex_digits: "hex_value (hex_digits n) = n"
proof (induction n rule: hex_digits.induct)
  case (1 n)
  show ?case
  proof (cases "n < 16")
    case True
    then show ?thesis
      by (subst hex_digits.simps) (simp add: hex_value_def hex_digit_value_hex_digit)
  next
    case False
    have "hex_value (hex_digits n) = 16 * hex_value (hex_digits (n div 16)) + hex_digit_value (hex_digit (n mod 16))"
      using False by (subst hex_digits.simps) (simp add: hex_value_snoc)
    also have "\<dots> = 16 * (n div 16) + n mod 16"
      using 1 False by (simp add: hex_digit_value_hex_digit)
    finally show ?thesis by simp
  qed
qed

lemma of_char_char_of_byte: "of_char (char_of (unat (c :: byte))) = c"
proof -
  have "(of_char (char_of (unat c)) :: byte) = of_nat (of_char (char_of (unat c)))"
    by (simp only: of_nat_of_char)
  also have "\<dots> = of_nat (unat c mod 256)" by simp
  also have "\<dots> = c"
  proof -
    have "unat c < 256" using unsigned_less [of c] by simp
    then show ?thesis by simp
  qed
  finally show ?thesis .
qed

lemma char_of_unat_eq: "char_of (unat (c :: byte)) = ch \<longleftrightarrow> c = of_char ch"
proof
  assume "char_of (unat c) = ch"
  then have "of_char (char_of (unat c)) = (of_char ch :: byte)" by simp
  then show "c = of_char ch" by (simp only: of_char_char_of_byte)
next
  assume c: "c = of_char ch"
  have "(of_char ch :: byte) = of_nat (of_char ch)" by (simp only: of_nat_of_char)
  then have "unat (of_char ch :: byte) = of_char ch mod 256"
    by (simp add: unat_of_nat)
  then have "unat c = of_char ch" using c by simp
  then show "char_of (unat c) = ch" by simp
qed

lemma unescape_plain: "x \<noteq> CHR 0x5C \<Longrightarrow> unescape (x # s) = of_char x # unescape s"
  by (cases s) simp_all

lemma hex_pair: "word_of_nat (16 * hex_digit_value (hex_digit (unat c div 16))
    + hex_digit_value (hex_digit (unat c mod 16))) = (c :: byte)"
proof -
  have "unat c < 256" using unsigned_less [of c] by simp
  then have "unat c div 16 < 16" by simp
  then have "hex_digit_value (hex_digit (unat c div 16)) = unat c div 16"
    by (rule hex_digit_value_hex_digit)
  moreover have "hex_digit_value (hex_digit (unat c mod 16)) = unat c mod 16"
    by (rule hex_digit_value_hex_digit) simp
  ultimately show ?thesis by simp
qed

lemma unescape_repr_byte:
  assumes "q = CHR 0x27 \<or> q = CHR 0x22"
  shows "unescape (repr_byte q c @ s) = c # unescape s"
proof -
  consider (esc) "of_char q = c \<or> c = 0x5C"
    | (tab) "\<not> (of_char q = c \<or> c = 0x5C)" "c = 0x09"
    | (nl) "\<not> (of_char q = c \<or> c = 0x5C)" "c = 0x0A"
    | (cr) "\<not> (of_char q = c \<or> c = 0x5C)" "c = 0x0D"
    | (hx) "\<not> (of_char q = c \<or> c = 0x5C)" "c \<noteq> 0x09" "c \<noteq> 0x0A" "c \<noteq> 0x0D" "c < 0x20 \<or> c \<ge> 0x7F"
    | (plain) "\<not> (of_char q = c \<or> c = 0x5C)" "c \<noteq> 0x09" "c \<noteq> 0x0A" "c \<noteq> 0x0D" "\<not> (c < 0x20 \<or> c \<ge> 0x7F)"
    by blast
  then show ?thesis
  proof cases
    case esc
    then have r: "repr_byte q c = [CHR 0x5C, char_of (unat c)]" by (simp add: repr_byte_def)
    have "c = 0x27 \<or> c = 0x22 \<or> c = 0x5C" using esc assms by auto
    then have e: "char_of (unat c) \<noteq> CHR ''t''" "char_of (unat c) \<noteq> CHR ''n''"
      "char_of (unat c) \<noteq> CHR ''r''" "char_of (unat c) \<noteq> CHR ''x''"
      by (auto simp: char_of_unat_eq)
    show ?thesis unfolding r using e by (simp add: of_char_char_of_byte)
  next
    case tab
    then show ?thesis by (simp add: repr_byte_def)
  next
    case nl
    then show ?thesis by (simp add: repr_byte_def)
  next
    case cr
    then show ?thesis by (simp add: repr_byte_def)
  next
    case hx
    then have r: "repr_byte q c = [CHR 0x5C, CHR ''x'', hex_digit (unat c div 16), hex_digit (unat c mod 16)]"
      by (simp add: repr_byte_def)
    show ?thesis unfolding r by (simp add: hex_pair del: of_nat_add of_nat_mult)
  next
    case plain
    then have r: "repr_byte q c = [char_of (unat c)]" by (simp add: repr_byte_def)
    have "char_of (unat c) \<noteq> CHR 0x5C" using plain(1) by (simp add: char_of_unat_eq)
    then show ?thesis unfolding r by (simp add: unescape_plain of_char_char_of_byte)
  qed
qed

lemma unescape_repr_bytes:
  "q = CHR 0x27 \<or> q = CHR 0x22 \<Longrightarrow> unescape (concat (map (repr_byte q) b)) = b"
  by (induction b) (simp_all add: unescape_repr_byte)

lemma bytes_unrepr_repr: "bytes_unrepr (bytes_repr b) = b"
proof -
  have q: "repr_quote b = CHR 0x27 \<or> repr_quote b = CHR 0x22" by (simp add: repr_quote_def)
  have "butlast (drop 2 (bytes_repr b)) = concat (map (repr_byte (repr_quote b)) b)"
    by (simp add: bytes_repr_def Let_def butlast_append)
  then show ?thesis using unescape_repr_bytes [OF q] by (simp add: bytes_unrepr_def)
qed

section \<open>Properties of the transport\<close>

lemma sock_recv_datagram:
  "\<not> sock_closed s \<Longrightarrow> inbox s = Datagram d # rest \<Longrightarrow>
   sock_recv n s = (Inr (take n d), s\<lparr>inbox := rest\<rparr>)"
  by (simp add: sock_recv_def)

text \<open>
  Claim C3. A single-packet response: when the socket is open and the next datagram (of at
  most 65535 bytes, as every UDP datagram is) starts with the simple header, \<open>recv\<close>
  returns the datagram without its first four bytes, and nothing else of the stream changes
  but that the datagram has left the inbox.
\<close>

theorem recv_simple:
  assumes "\<not> sock_closed (socket self)"
    and "inbox (socket self) = Datagram d # rest"
    and "length d \<le> 65535"
    and "take 4 d = HEADER_SIMPLE"
  shows "recv decode_fragment self = (Inr (drop 4 d), self\<lparr>socket := (socket self)\<lparr>inbox := rest\<rparr>\<rparr>)"
  using assms by (simp add: recv_def sock_recv_datagram)

theorem recv_simple_witness:
  "recv (\<lambda>b. Inl BufferExhaustedError)
     (A2SStream_init [Datagram [0xFF, 0xFF, 0xFF, 0xFF, 0x49, 0x11, 0x00]] [] (''10.0.0.1'', 27015))
   = (Inr [0x49, 0x11, 0x00],
      (A2SStream_init [Datagram [0xFF, 0xFF, 0xFF, 0xFF, 0x49, 0x11, 0x00]] [] (''10.0.0.1'', 27015))
        \<lparr>socket := (socket (A2SStream_init [Datagram [0xFF, 0xFF, 0xFF, 0xFF, 0x49, 0x11, 0x00]] []
             (''10.0.0.1'', 27015)))\<lparr>inbox := []\<rparr>\<rparr>)"
  using recv_simple [of "A2SStream_init [Datagram [0xFF, 0xFF, 0xFF, 0xFF, 0x49, 0x11, 0x00]] [] (''10.0.0.1'', 27015)"
      "[0xFF, 0xFF, 0xFF, 0xFF, 0x49, 0x11, 0x00]" "[]" "\<lambda>b. Inl BufferExhaustedError"]
  by (simp add: A2SStream_init_def HEADER_SIMPLE_def)

text \<open>
  Claim C7. A datagram whose first four bytes (all of it, when it is shorter) are neither the
  simple nor the multi header: \<open>recv\<close> raises \<open>BrokenMessageError\<close> with the
  message \<open>Invalid packet header:\<close> followed by the \<open>repr\<close> of those header bytes,
  from which the header bytes can be read back, and returns no buffer.
\<close>

theorem recv_invalid_header:
  assumes "\<not> sock_closed (socket self)"
    and "inbox (socket self) = Datagram d # rest"
    and "take 4 d \<noteq> HEADER_SIMPLE"
    and "take 4 d \<noteq> HEADER_MULTI"
  shows "recv decode_fragment self =
           (Inl (BrokenMessageError (''Invalid packet header: '' @ bytes_repr (take 4 d))),
            self\<lparr>socket := (socket self)\<lparr>inbox := rest\<rparr>\<rparr>)
       \<and> bytes_unrepr (bytes_repr (take 4 d)) = take 4 d"
  using assms by (simp add: recv_def sock_recv_datagram min_def bytes_unrepr_repr)

lemma startswith4: "startswith b [w, x, y, z] = (take 4 b = [w, x, y, z])"
proof -
  have "length [w, x, y, z] = 4" by simp
  then show ?thesis unfolding startswith_def by presburger
qed

lemma collect_fragments_shape:
  assumes "collect_fragments dec acc s = (Inr fs, s')" and "\<not> sock_closed s"
  shows "\<exists>ds new. fs = acc @ new \<and> inbox s = map Datagram ds @ inbox s'
       \<and> map (\<lambda>d. dec (drop 4 (take 4096 d))) ds = map Inr new
       \<and> length fs = max (length acc) (fragment_count (hd acc))
       \<and> s' = s\<lparr>inbox := inbox s'\<rparr>"
  using assms
proof (induction dec acc s rule: collect_fragments.induct)
  case (1 dec fragments s)
  show ?case
  proof (cases fragments)
    case Nil
    with 1(2) show ?thesis by (simp add: collect_fragments.simps)
  next
    case (Cons f0 tl)
    show ?thesis
    proof (cases "length fragments < fragment_count f0")
      case False
      with Cons 1(2) show ?thesis by (auto simp: max_def collect_fragments.simps)
    next
      case True
      from 1(3) 1(2) Cons True obtain d rest where ib: "inbox s = Datagram d # rest"
        by (subst (asm) collect_fragments.simps)
           (auto simp: sock_recv_def split: list.splits recv_event.splits)
      then have rv: "sock_recv 4096 s = (Inr (take 4096 d), s\<lparr>inbox := rest\<rparr>)"
        using 1(3) by (simp add: sock_recv_def)
      from 1(2) Cons True rv obtain f where df: "dec (drop 4 (take 4096 d)) = Inr f"
        and rec: "collect_fragments dec (fragments @ [f]) (s\<lparr>inbox := rest\<rparr>) = (Inr fs, s')"
        by (subst (asm) collect_fragments.simps) (auto split: sum.splits)
      have "\<exists>ds new. fs = (fragments @ [f]) @ new \<and> inbox (s\<lparr>inbox := rest\<rparr>) = map Datagram ds @ inbox s'
       \<and> map (\<lambda>d. dec (drop 4 (take 4096 d))) ds = map Inr new
       \<and> length fs = max (length (fragments @ [f])) (fragment_count (hd (fragments @ [f])))
       \<and> s' = (s\<lparr>inbox := rest\<rparr>)\<lparr>inbox := inbox s'\<rparr>"
        using 1(1)[OF Cons True rv[symmetric] refl df rec] 1(3) by simp
      then obtain ds new where h: "fs = (fragments @ [f]) @ new" "rest = map Datagram ds @ inbox s'"
        "map (\<lambda>d. dec (drop 4 (take 4096 d))) ds = map Inr new"
        "length fs = max (length (fragments @ [f])) (fragment_count (hd (fragments @ [f])))"
        "s' = (s\<lparr>inbox := rest\<rparr>)\<lparr>inbox := inbox s'\<rparr>" by auto
      show ?thesis
        apply (rule exI[of _ "d # ds"], rule exI[of _ "f # new"])
        using h ib df Cons True by (auto simp: max_def)
    qed
  qed
qed

lemma collect_fragments_all:
  assumes "\<not> sock_closed s" and "inbox s = map Datagram ds @ rest"
    and "map (\<lambda>d. dec (drop 4 (take 4096 d))) ds = map Inr new"
    and "acc \<noteq> []" and "length acc + length ds = fragment_count (hd acc)"
  shows "collect_fragments dec acc s = (Inr (acc @ new), s\<lparr>inbox := rest\<rparr>)"
  using assms
proof (induction ds arbitrary: acc s new)
  case Nil
  then show ?case by (cases acc) (auto simp: collect_fragments.simps)
next
  case (Cons d ds)
  from Cons.prems(3) obtain f new' where new: "new = f # new'" and df: "dec (drop 4 (take 4096 d)) = Inr f"
    and rest: "map (\<lambda>d. dec (drop 4 (take 4096 d))) ds = map Inr new'"
    by (cases new) auto
  from Cons.prems(4) obtain f0 tl where acc: "acc = f0 # tl" by (cases acc) auto
  have rv: "sock_recv 4096 s = (Inr (take 4096 d), s\<lparr>inbox := map Datagram ds @ rest\<rparr>)"
    using Cons.prems(1,2) by (simp add: sock_recv_def)
  have lt: "length acc < fragment_count f0" using Cons.prems(5) acc by simp
  have "collect_fragments dec (acc @ [f]) (s\<lparr>inbox := map Datagram ds @ rest\<rparr>)
        = (Inr ((acc @ [f]) @ new'), (s\<lparr>inbox := map Datagram ds @ rest\<rparr>)\<lparr>inbox := rest\<rparr>)"
    using Cons.prems(1,5) acc by (intro Cons.IH[OF _ _ rest]) auto
  then show ?case
    using rv lt df acc new by (subst collect_fragments.simps) simp
qed

lemma sock_recv_keeps:
  "sock_recv n s = (r, s1) \<Longrightarrow>
   outbox s1 = outbox s \<and> sock_closed s1 = sock_closed s \<and> send_faults s1 = send_faults s"
  by (auto simp: sock_recv_def split: if_splits list.splits recv_event.splits)

lemma collect_fragments_keeps:
  "collect_fragments dec acc s = (r, s1) \<Longrightarrow>
   outbox s1 = outbox s \<and> sock_closed s1 = sock_closed s \<and> send_faults s1 = send_faults s"
proof (induction dec acc s rule: collect_fragments.induct)
  case (1 dec fragments s)
  show ?case
  proof (cases fragments)
    case Nil
    with 1(2) show ?thesis by (simp add: collect_fragments.simps)
  next
    case (Cons f0 tl)
    show ?thesis
    proof (cases "length fragments < fragment_count f0")
      case False
      with Cons 1(2) show ?thesis by (simp add: collect_fragments.simps)
    next
      case True
      obtain r1 s' where rv: "sock_recv 4096 s = (r1, s')" by fastforce
      note k = sock_recv_keeps [OF rv]
      show ?thesis
      proof (cases r1)
        case (Inl e)
        with 1(2) Cons True rv k show ?thesis
          by (subst (asm) collect_fragments.simps) auto
      next
        case (Inr packet)
        show ?thesis
        proof (cases "dec (drop 4 packet)")
          case (Inl e)
          with 1(2) Cons True rv k Inr show ?thesis
            by (subst (asm) collect_fragments.simps) auto
        next
          case df: (Inr f)
          have rec: "collect_fragments dec (fragments @ [f]) s' = (r, s1)"
            using 1(2) Cons True rv Inr df by (subst (asm) collect_fragments.simps) simp
          from 1(1) [OF Cons True _ _ df rec] rv Inr k show ?thesis by simp
        qed
      qed
    qed
  qed
qed

lemma recv_keeps:
  assumes "recv dec c = (r, c1)"
  shows "outbox (socket c1) = outbox (socket c) \<and> sock_closed (socket c1) = sock_closed (socket c)
       \<and> send_faults (socket c1) = send_faults (socket c) \<and> address c1 = address c"
proof -
  obtain r0 s where rv: "sock_recv 65535 (socket c) = (r0, s)" by fastforce
  note k = sock_recv_keeps [OF rv]
  show ?thesis
  proof (cases r0)
    case (Inl e)
    with assms rv k show ?thesis by (auto simp: recv_def)
  next
    case (Inr packet)
    show ?thesis
    proof (cases "take 4 packet = HEADER_MULTI \<and> take 4 packet \<noteq> HEADER_SIMPLE")
      case False
      with assms rv k Inr show ?thesis by (auto simp: recv_def Let_def split: if_splits)
    next
      case True
      show ?thesis
      proof (cases "dec (drop 4 packet)")
        case (Inl e)
        with assms rv k Inr True show ?thesis by (auto simp: recv_def Let_def)
      next
        case df: (Inr f)
        obtain r2 s2 where cf: "collect_fragments dec [f] s = (r2, s2)" by fastforce
        note k2 = collect_fragments_keeps [OF cf]
        from assms rv Inr True df cf k k2 show ?thesis
          by (auto simp: recv_def Let_def split: sum.splits)
      qed
    qed
  qed
qed

lemma send_keeps:
  assumes "send c d = (r, c1)"
  shows "sock_closed (socket c1) = sock_closed (socket c) \<and> address c1 = address c
       \<and> (\<exists>l. outbox (socket c1) = outbox (socket c) @ l)"
  using assms
  by (auto simp: send_def sock_sendto_def Let_def split: if_splits list.splits option.splits)

lemma request_keeps:
  assumes "request dec c d = (r, c1)"
  shows "sock_closed (socket c1) = sock_closed (socket c) \<and> address c1 = address c
       \<and> (\<exists>l. outbox (socket c1) = outbox (socket c) @ l)"
proof -
  obtain r0 c0 where s: "send c d = (r0, c0)" by fastforce
  note ks = send_keeps [OF s]
  show ?thesis
  proof (cases r0)
    case (Inl e)
    with assms s ks show ?thesis by (simp add: request_def)
  next
    case (Inr u)
    with assms s have "recv dec c0 = (r, c1)" by (simp add: request_def)
    from recv_keeps [OF this] ks show ?thesis by auto
  qed
qed

text \<open>
  Claim C5, as the code has it. When \<open>recv\<close> returns a buffer \<open>buf\<close> for a datagram
  with the multi header, the first datagram decoded to a fragment \<open>f0\<close>, the following
  datagrams \<open>ds\<close> were taken from the inbox and decoded to \<open>fs\<close>, and the number of
  collected fragments is the count \<open>f0\<close> declares, or one when it declares zero. The
  buffer is made of all of them: \<open>ordered\<close> holds the collected fragments, each once, in
  ascending order of fragment id (fragments of equal id in their order of arrival),
  \<open>joined\<close> is their payloads one after the other, and \<open>buf\<close> is \<open>joined\<close>, without
  the simple header when \<open>joined\<close> starts with it.
\<close>

theorem recv_multi_collects:
  assumes "\<not> sock_closed (socket self)"
    and "inbox (socket self) = Datagram d # rest"
    and "take 4 d = HEADER_MULTI"
    and "recv decode_fragment self = (Inr buf, self')"
  shows "\<exists>f0 ds fs ordered joined.
         decode_fragment (drop 4 (take 65535 d)) = Inr f0
       \<and> rest = map Datagram ds @ inbox (socket self')
       \<and> map (\<lambda>d. decode_fragment (drop 4 (take 4096 d))) ds = map Inr fs
       \<and> length (f0 # fs) = max 1 (fragment_count f0)
       \<and> mset ordered = mset (f0 # fs)
       \<and> sorted (map fragment_id ordered)
       \<and> ordered = sort_key fragment_id (f0 # fs)
       \<and> joined = concat (map payload ordered)
       \<and> ((\<exists>tail. joined = [0xFF, 0xFF, 0xFF, 0xFF] @ tail \<and> buf = tail)
            \<or> ((\<forall>tail. joined \<noteq> [0xFF, 0xFF, 0xFF, 0xFF] @ tail) \<and> buf = joined))
       \<and> self' = self\<lparr>socket := (socket self)\<lparr>inbox := inbox (socket self')\<rparr>\<rparr>"
proof -
  let ?s = "(socket self)\<lparr>inbox := rest\<rparr>"
  have ne: "HEADER_MULTI \<noteq> HEADER_SIMPLE" by (simp add: HEADER_MULTI_def HEADER_SIMPLE_def)
  have rv: "sock_recv 65535 (socket self) = (Inr (take 65535 d), ?s)"
    using assms(1,2) by (rule sock_recv_datagram)
  have hd4: "take 4 (take 65535 d) = HEADER_MULTI" using assms(3) by (simp add: min_def)
  from assms(4) rv hd4 ne obtain f0 fragments s' where
    df: "decode_fragment (drop 4 (take 65535 d)) = Inr f0"
    and cf: "collect_fragments decode_fragment [f0] ?s = (Inr fragments, s')"
    and buf: "buf = reassemble fragments" and self': "self' = self\<lparr>socket := s'\<rparr>"
    by (auto simp: recv_def Let_def split: sum.splits prod.splits)
  from collect_fragments_shape[OF cf] assms(1) obtain ds new where
    h: "fragments = [f0] @ new" "inbox ?s = map Datagram ds @ inbox s'"
       "map (\<lambda>d. decode_fragment (drop 4 (take 4096 d))) ds = map Inr new"
       "length fragments = max (length [f0]) (fragment_count (hd [f0]))"
       "s' = ?s\<lparr>inbox := inbox s'\<rparr>"
    by auto
  define ordered where "ordered = sort_key fragment_id (f0 # new)"
  define joined where "joined = concat (map payload ordered)"
  have srt: "sorted (map fragment_id ordered)"
    unfolding ordered_def by (rule sorted_sort_key)
  have ms: "mset ordered = mset (f0 # new)"
    unfolding ordered_def by (rule mset_sort)
  have len: "length (f0 # new) = max 1 (fragment_count f0)" using h(1,4) by simp
  have rest: "rest = map Datagram ds @ inbox (socket self')" using h(2) self' by simp
  have st: "self' = self\<lparr>socket := (socket self)\<lparr>inbox := inbox (socket self')\<rparr>\<rparr>"
    using h(5) self' by simp
  have b: "buf = (if take 4 joined = [0xFF, 0xFF, 0xFF, 0xFF] then drop 4 joined else joined)"
    using buf h(1) by (simp add: reassemble_def startswith4 Let_def joined_def ordered_def)
  have strip: "(\<exists>tail. joined = [0xFF, 0xFF, 0xFF, 0xFF] @ tail \<and> buf = tail)
            \<or> ((\<forall>tail. joined \<noteq> [0xFF, 0xFF, 0xFF, 0xFF] @ tail) \<and> buf = joined)"
  proof (cases "take 4 joined = [0xFF, 0xFF, 0xFF, 0xFF]")
    case True
    then have "joined = [0xFF, 0xFF, 0xFF, 0xFF] @ drop 4 joined"
      by (metis append_take_drop_id)
    moreover have "buf = drop 4 joined" using b True by simp
    ultimately show ?thesis by blast
  next
    case False
    have "joined \<noteq> [0xFF, 0xFF, 0xFF, 0xFF] @ tail" for tail
    proof
      assume "joined = [0xFF, 0xFF, 0xFF, 0xFF] @ tail"
      then have "take 4 joined = [0xFF, 0xFF, 0xFF, 0xFF]" by simp
      with False show False by simp
    qed
    moreover have "buf = joined" using b False by simp
    ultimately show ?thesis by blast
  qed
  have o: "ordered = sort_key fragment_id (f0 # new)" by (rule ordered_def)
  have j: "joined = concat (map payload ordered)" by (rule joined_def)
  from df rest h(3) len ms srt o j strip st show ?thesis by blast
qed

text \<open>
  Claim C6. In the multi-packet branch, with \<open>joined\<close> the concatenation of the
  payloads of the collected fragments sorted by fragment id: when \<open>joined\<close> is the
  simple header followed by \<open>tail\<close>, \<open>recv\<close> returns \<open>tail\<close> (whatever
  \<open>tail\<close> starts with); when \<open>joined\<close> does not start with the simple header,
  \<open>recv\<close> returns \<open>joined\<close>.
\<close>

theorem recv_multi_strip:
  assumes "\<not> sock_closed (socket self)"
    and "inbox (socket self) = Datagram d # rest"
    and "take 4 d = HEADER_MULTI"
    and "decode_fragment (drop 4 (take 65535 d)) = Inr f0"
    and "collect_fragments decode_fragment [f0] ((socket self)\<lparr>inbox := rest\<rparr>) = (Inr fragments, s')"
    and "joined = concat (map payload (sort_key fragment_id fragments))"
  shows "(\<forall>tail. joined = [0xFF, 0xFF, 0xFF, 0xFF] @ tail \<longrightarrow>
            recv decode_fragment self = (Inr tail, self\<lparr>socket := s'\<rparr>))
       \<and> ((\<forall>tail. joined \<noteq> [0xFF, 0xFF, 0xFF, 0xFF] @ tail) \<longrightarrow>
            recv decode_fragment self = (Inr joined, self\<lparr>socket := s'\<rparr>))"
proof -
  have ne: "HEADER_MULTI \<noteq> HEADER_SIMPLE" by (simp add: HEADER_MULTI_def HEADER_SIMPLE_def)
  have rv: "sock_recv 65535 (socket self) = (Inr (take 65535 d), (socket self)\<lparr>inbox := rest\<rparr>)"
    using assms(1,2) by (rule sock_recv_datagram)
  have hd4: "take 4 (take 65535 d) = HEADER_MULTI" using assms(3) by (simp add: min_def)
  have r: "recv decode_fragment self = (Inr (reassemble fragments), self\<lparr>socket := s'\<rparr>)"
    using rv hd4 ne assms(4,5) by (simp add: recv_def)
  have a: "reassemble fragments = tail" if "joined = [0xFF, 0xFF, 0xFF, 0xFF] @ tail" for tail
    using that assms(6) by (simp add: reassemble_def startswith4 Let_def)
  have b: "reassemble fragments = joined" if "\<forall>tail. joined \<noteq> [0xFF, 0xFF, 0xFF, 0xFF] @ tail"
  proof -
    have "take 4 joined \<noteq> [0xFF, 0xFF, 0xFF, 0xFF]"
    proof
      assume "take 4 joined = [0xFF, 0xFF, 0xFF, 0xFF]"
      then have "joined = [0xFF, 0xFF, 0xFF, 0xFF] @ drop 4 joined"
        by (metis append_take_drop_id)
      with that show False by blast
    qed
    then show ?thesis using assms(6) by (simp add: reassemble_def startswith4 Let_def)
  qed
  show ?thesis using r a b by simp
qed

lemma filter_same_key:
  "distinct (map f xs) \<Longrightarrow> k \<in> set xs \<Longrightarrow> filter (\<lambda>x. f k = f x) xs = [k]"
proof (induction xs)
  case Nil
  then show ?case by simp
next
  case (Cons x xs)
  show ?case
  proof (cases "k = x")
    case True
    have "filter (\<lambda>y. f x = f y) xs = []"
      using Cons.prems(1) by (auto simp: filter_empty_conv)
    with True show ?thesis by simp
  next
    case False
    with Cons.prems have kin: "k \<in> set xs" by simp
    have "f x \<notin> f ` set xs" using Cons.prems(1) by simp
    then have "f k \<noteq> f x" using kin by (metis imageI)
    with Cons.IH Cons.prems(1) kin show ?thesis by simp
  qed
qed

lemma sort_key_permutation:
  assumes "mset ys = mset xs" and "distinct (map f xs)"
  shows "sort_key f ys = sort_key f xs"
proof (rule properties_for_sort_key)
  show "mset (sort_key f xs) = mset ys" using assms(1) by simp
  show "sorted (map f (sort_key f xs))" by (rule sorted_sort_key)
  fix k assume "k \<in> set (sort_key f xs)"
  then have kx: "k \<in> set xs" by simp
  have "mset (map f ys) = mset (map f xs)" using assms(1) by (metis mset_map)
  then have dy: "distinct (map f ys)" using assms(2) by (metis mset_eq_imp_distinct_iff)
  have ky: "k \<in> set ys" using kx assms(1) by (metis mset_eq_setD)
  have "mset (map f (sort_key f xs)) = mset (map f xs)" by simp
  then have ds: "distinct (map f (sort_key f xs))"
    using assms(2) by (metis mset_eq_imp_distinct_iff)
  have "filter (\<lambda>x. f k = f x) (sort_key f xs) = [k]"
    using ds kx by (intro filter_same_key) simp_all
  moreover have "filter (\<lambda>x. f k = f x) ys = [k]" using dy ky by (rule filter_same_key)
  ultimately show "filter (\<lambda>x. f k = f x) (sort_key f xs) = filter (\<lambda>x. f k = f x) ys" by simp
qed

lemma reassemble_permutation:
  "mset fs' = mset fs \<Longrightarrow> distinct (map fragment_id fs) \<Longrightarrow> reassemble fs' = reassemble fs"
  using sort_key_permutation [of fs' fs fragment_id] by (simp add: reassemble_def)

lemma recv_multi_complete:
  assumes "\<not> sock_closed (socket self)"
    and "inbox (socket self) = map Datagram ds @ rest"
    and "\<forall>d \<in> set ds. take 4 d = HEADER_MULTI \<and> length d \<le> 4096"
    and "map (\<lambda>d. decode_fragment (drop 4 d)) ds = map Inr fs"
    and "\<forall>f \<in> set fs. fragment_count f = length ds"
    and "ds \<noteq> []"
  shows "recv decode_fragment self = (Inr (reassemble fs), self\<lparr>socket := (socket self)\<lparr>inbox := rest\<rparr>\<rparr>)"
proof -
  from assms(6) obtain d ds1 where ds: "ds = d # ds1" by (cases ds) auto
  with assms(4) obtain f0 fs1 where fs: "fs = f0 # fs1" and d0: "decode_fragment (drop 4 d) = Inr f0"
    and d1: "map (\<lambda>d. decode_fragment (drop 4 d)) ds1 = map Inr fs1" by (cases fs) auto
  let ?s = "(socket self)\<lparr>inbox := map Datagram ds1 @ rest\<rparr>"
  have ne: "HEADER_MULTI \<noteq> HEADER_SIMPLE" by (simp add: HEADER_MULTI_def HEADER_SIMPLE_def)
  have dlen: "length d \<le> 4096" and dhd: "take 4 d = HEADER_MULTI" using assms(3) ds by auto
  have rv: "sock_recv 65535 (socket self) = (Inr d, ?s)"
    using assms(1,2) ds dlen by (simp add: sock_recv_def)
  have tk: "map (\<lambda>d. decode_fragment (drop 4 (take 4096 d))) ds1 = map Inr fs1"
  proof -
    have "map (\<lambda>d. decode_fragment (drop 4 (take 4096 d))) ds1 = map (\<lambda>d. decode_fragment (drop 4 d)) ds1"
      using assms(3) ds by (intro map_cong) auto
    with d1 show ?thesis by simp
  qed
  have cnt: "length [f0] + length ds1 = fragment_count (hd [f0])" using assms(5) fs ds by simp
  have cf: "collect_fragments decode_fragment [f0] ?s = (Inr ([f0] @ fs1), ?s\<lparr>inbox := rest\<rparr>)"
    using assms(1) tk cnt by (intro collect_fragments_all) simp_all
  show ?thesis using rv dhd ne d0 cf fs by (simp add: recv_def)
qed

text \<open>
  Claim C4, as the code has it. A multi-fragment response \<open>ds\<close>: every datagram has the
  multi header and at most 4096 bytes, decodes to a fragment, the fragments declare the
  number of datagrams as their count and have distinct ids. Then \<open>recv\<close> returns the same
  buffer and leaves the same stream behind for every order \<open>ds'\<close> in which the datagrams
  arrive.
\<close>

theorem recv_multi_order_independent:
  assumes "\<not> sock_closed (socket self)"
    and "inbox (socket self) = map Datagram ds @ rest"
    and "\<forall>d \<in> set ds. take 4 d = HEADER_MULTI \<and> length d \<le> 4096"
    and "map (\<lambda>d. decode_fragment (drop 4 d)) ds = map Inr fs"
    and "\<forall>f \<in> set fs. fragment_count f = length ds"
    and "distinct (map fragment_id fs)"
    and "ds \<noteq> []"
    and "mset ds' = mset ds"
  shows "recv decode_fragment self = (Inr (reassemble fs), self\<lparr>socket := (socket self)\<lparr>inbox := rest\<rparr>\<rparr>)
       \<and> recv decode_fragment (self\<lparr>socket := (socket self)\<lparr>inbox := map Datagram ds' @ rest\<rparr>\<rparr>)
           = (Inr (reassemble fs), self\<lparr>socket := (socket self)\<lparr>inbox := rest\<rparr>\<rparr>)"
proof
  show "recv decode_fragment self = (Inr (reassemble fs), self\<lparr>socket := (socket self)\<lparr>inbox := rest\<rparr>\<rparr>)"
    using assms(1,2,3,4,5,7) by (rule recv_multi_complete)
next
  let ?self' = "self\<lparr>socket := (socket self)\<lparr>inbox := map Datagram ds' @ rest\<rparr>\<rparr>"
  have sets: "set ds' = set ds" using assms(8) by (metis mset_eq_setD)
  have len: "length ds' = length ds" using assms(8) by (metis mset_eq_length)
  let ?g = "\<lambda>d. projr (decode_fragment (drop 4 d))"
  have fsg: "fs = map ?g ds"
  proof -
    have "map projr (map (\<lambda>d. decode_fragment (drop 4 d)) ds) = map projr (map Inr fs :: (error + fragment) list)"
      using assms(4) by simp
    then show ?thesis by (simp add: comp_def)
  qed
  have isr: "decode_fragment (drop 4 d) = Inr (?g d)" if "d \<in> set ds" for d
  proof -
    from that have "decode_fragment (drop 4 d) \<in> set (map (\<lambda>d. decode_fragment (drop 4 d)) ds)" by simp
    with assms(4) show ?thesis by auto
  qed
  define fs' where "fs' = map ?g ds'"
  have fs': "map (\<lambda>d. decode_fragment (drop 4 d)) ds' = map Inr fs'"
    unfolding fs'_def using isr sets by simp
  have "mset fs' = image_mset ?g (mset ds')" unfolding fs'_def by simp
  also have "\<dots> = image_mset ?g (mset ds)" using assms(8) by simp
  also have "\<dots> = mset fs" unfolding fsg by simp
  finally have ms: "mset fs' = mset fs" .
  have "set fs' = set fs" using ms by (rule mset_eq_setD)
  then have cnt: "\<forall>f \<in> set fs'. fragment_count f = length ds'"
    using assms(5) len by simp
  have hdr: "\<forall>d \<in> set ds'. take 4 d = HEADER_MULTI \<and> length d \<le> 4096"
    using assms(3) sets by simp
  have ne: "ds' \<noteq> []" using assms(7) len by auto
  have c1: "\<not> sock_closed (socket ?self')" using assms(1) by simp
  have c2: "inbox (socket ?self') = map Datagram ds' @ rest" by simp
  have "recv decode_fragment ?self' =
          (Inr (reassemble fs'), ?self'\<lparr>socket := (socket ?self')\<lparr>inbox := rest\<rparr>\<rparr>)"
    using c1 c2 hdr fs' cnt ne by (rule recv_multi_complete)
  moreover have "reassemble fs' = reassemble fs" using ms assms(6) by (rule reassemble_permutation)
  ultimately show "recv decode_fragment ?self' =
      (Inr (reassemble fs), self\<lparr>socket := (socket self)\<lparr>inbox := rest\<rparr>\<rparr>)" by simp
qed

lemmas transport_eval =
  recv_def A2SStream_init_def sock_recv_def HEADER_MULTI_def HEADER_SIMPLE_def
  decode_fragment_spec_def collect_fragments.simps reassemble_def startswith4
  frag_datagram_def zero_count_datagram_def

text \<open>Concrete runs of \<open>recv\<close>: the theorems above at sample inputs.\<close>

theorem recv_invalid_header_witness:
  "recv decode_fragment_spec (A2SStream_init [Datagram [0x01, 0x02]] [] sample_address) =
     (Inl (BrokenMessageError (''Invalid packet header: '' @
        [CHR ''b'', CHR 0x27, CHR 0x5C, CHR ''x'', CHR ''0'', CHR ''1'', CHR 0x5C,
         CHR ''x'', CHR ''0'', CHR ''2'', CHR 0x27])),
      A2SStream_init [] [] sample_address)"
  using recv_invalid_header [of "A2SStream_init [Datagram [0x01, 0x02]] [] sample_address"
      "[0x01, 0x02]" "[]" decode_fragment_spec]
  by (simp add: A2SStream_init_def HEADER_SIMPLE_def HEADER_MULTI_def bytes_repr_def
      repr_quote_def repr_byte_def hex_digit_def Let_def)

text \<open>
  A first fragment that declares the count zero: the loop does not run, \<open>recv\<close> yields
  the buffer of the one fragment it has, and the number of collected fragments is not the
  declared count.
\<close>

theorem recv_multi_collects_counterexample:
  "recv decode_fragment_spec (A2SStream_init [Datagram zero_count_datagram] [] sample_address)
     = (Inr [0x61], A2SStream_init [] [] sample_address)
   \<and> decode_fragment_spec (drop 4 zero_count_datagram)
     = Inr \<lparr>fragment_id = 0, fragment_count = 0, payload = [0x61]\<rparr>
   \<and> collect_fragments decode_fragment_spec [\<lparr>fragment_id = 0, fragment_count = 0, payload = [0x61]\<rparr>]
        (socket (A2SStream_init [] [] sample_address))
     = (Inr [\<lparr>fragment_id = 0, fragment_count = 0, payload = [0x61]\<rparr>],
        socket (A2SStream_init [] [] sample_address))
   \<and> length [\<lparr>fragment_id = 0, fragment_count = 0, payload = [0x61]\<rparr>]
     \<noteq> fragment_count \<lparr>fragment_id = 0, fragment_count = 0, payload = [0x61]\<rparr>"
  by (simp add: transport_eval)

theorem recv_multi_collects_witness:
  "\<exists>f0 ds fs ordered joined.
       decode_fragment_spec (drop 4 (take 65535 (frag_datagram 2 3 [0x63]))) = Inr f0
     \<and> [Datagram (frag_datagram 0 3 [0x61]), Datagram (frag_datagram 1 3 [0x62])]
         = map Datagram ds @ inbox (socket (A2SStream_init [] [] sample_address))
     \<and> map (\<lambda>d. decode_fragment_spec (drop 4 (take 4096 d))) ds = map Inr fs
     \<and> length (f0 # fs) = max 1 (fragment_count f0)
     \<and> mset ordered = mset (f0 # fs)
     \<and> sorted (map fragment_id ordered)
     \<and> joined = concat (map payload ordered)
     \<and> map fragment_id (f0 # fs) = [2, 0, 1]
     \<and> map fragment_id ordered = [0, 1, 2]
     \<and> fragment_count f0 = 3
     \<and> joined = [0x61, 0x62, 0x63]
     \<and> recv decode_fragment_spec
          (A2SStream_init [Datagram (frag_datagram 2 3 [0x63]), Datagram (frag_datagram 0 3 [0x61]),
             Datagram (frag_datagram 1 3 [0x62])] [] sample_address)
        = (Inr joined, A2SStream_init [] [] sample_address)"
proof -
  let ?self = "A2SStream_init [Datagram (frag_datagram 2 3 [0x63]), Datagram (frag_datagram 0 3 [0x61]),
      Datagram (frag_datagram 1 3 [0x62])] [] sample_address"
  have r: "recv decode_fragment_spec ?self = (Inr [0x61, 0x62, 0x63], A2SStream_init [] [] sample_address)"
    by (simp add: transport_eval)
  have c: "\<not> sock_closed (socket ?self)" by (simp add: A2SStream_init_def)
  have i: "inbox (socket ?self) = Datagram (frag_datagram 2 3 [0x63]) #
      [Datagram (frag_datagram 0 3 [0x61]), Datagram (frag_datagram 1 3 [0x62])]"
    by (simp add: A2SStream_init_def)
  have h: "take 4 (frag_datagram 2 3 [0x63]) = HEADER_MULTI"
    by (simp add: frag_datagram_def HEADER_MULTI_def)
  from recv_multi_collects [OF c i h r] obtain f0 ds fs ordered joined where
    w: "decode_fragment_spec (drop 4 (take 65535 (frag_datagram 2 3 [0x63]))) = Inr f0"
     "[Datagram (frag_datagram 0 3 [0x61]), Datagram (frag_datagram 1 3 [0x62])]
         = map Datagram ds @ inbox (socket (A2SStream_init [] [] sample_address))"
     "map (\<lambda>d. decode_fragment_spec (drop 4 (take 4096 d))) ds = map Inr fs"
     "length (f0 # fs) = max 1 (fragment_count f0)"
     "mset ordered = mset (f0 # fs)"
     "sorted (map fragment_id ordered)"
     "ordered = sort_key fragment_id (f0 # fs)"
     "joined = concat (map payload ordered)"
    by blast
  from w(1) have f0: "f0 = \<lparr>fragment_id = 2, fragment_count = 3, payload = [0x63]\<rparr>"
    by (auto simp: frag_datagram_def HEADER_MULTI_def decode_fragment_spec_def)
  from w(2) have "map Datagram ds = [Datagram (frag_datagram 0 3 [0x61]), Datagram (frag_datagram 1 3 [0x62])]"
    by (simp add: A2SStream_init_def)
  then have ds: "ds = [frag_datagram 0 3 [0x61], frag_datagram 1 3 [0x62]]"
    by (auto simp: map_eq_Cons_conv)
  from w(3) have fs: "fs = [\<lparr>fragment_id = 0, fragment_count = 3, payload = [0x61]\<rparr>,
      \<lparr>fragment_id = 1, fragment_count = 3, payload = [0x62]\<rparr>]"
    unfolding ds
    by (auto simp: frag_datagram_def HEADER_MULTI_def decode_fragment_spec_def Cons_eq_map_conv)
  have ids: "map fragment_id (f0 # fs) = [2, 0, 1]" unfolding f0 fs by simp
  have ord: "map fragment_id ordered = [0, 1, 2]" unfolding w(7) f0 fs by simp
  have jn: "joined = [0x61, 0x62, 0x63]" unfolding w(8) w(7) f0 fs by simp
  have cnt: "fragment_count f0 = 3" unfolding f0 by simp
  have rr: "recv decode_fragment_spec ?self = (Inr joined, A2SStream_init [] [] sample_address)"
    using r jn by simp
  show ?thesis
    by (rule exI [of _ f0], rule exI [of _ ds], rule exI [of _ fs], rule exI [of _ ordered],
        rule exI [of _ joined])
       (intro conjI; (rule w ids ord cnt jn rr))
qed

theorem recv_multi_strip_witness:
  "recv decode_fragment_spec
     (A2SStream_init [Datagram (frag_datagram 1 2 [0x6F, 0x6B]),
                      Datagram (frag_datagram 0 2 [0xFF, 0xFF, 0xFF, 0xFF, 0xFF, 0xFF, 0xFF, 0xFF, 0x49])]
        [] sample_address)
     = (Inr [0xFF, 0xFF, 0xFF, 0xFF, 0x49, 0x6F, 0x6B], A2SStream_init [] [] sample_address)
   \<and> recv decode_fragment_spec
     (A2SStream_init [Datagram (frag_datagram 1 2 [0x6F, 0x6B]),
                      Datagram (frag_datagram 0 2 [0xFF, 0xFF, 0xFF, 0x49])]
        [] sample_address)
     = (Inr [0xFF, 0xFF, 0xFF, 0x49, 0x6F, 0x6B], A2SStream_init [] [] sample_address)"
proof -
  let ?f1 = "\<lparr>fragment_id = 1, fragment_count = 2, payload = [0x6F, 0x6B]\<rparr>"
  let ?fa = "\<lparr>fragment_id = 0, fragment_count = 2,
               payload = [0xFF, 0xFF, 0xFF, 0xFF, 0xFF, 0xFF, 0xFF, 0xFF, 0x49]\<rparr>"
  let ?fb = "\<lparr>fragment_id = 0, fragment_count = 2, payload = [0xFF, 0xFF, 0xFF, 0x49]\<rparr>"
  let ?da = "frag_datagram 0 2 [0xFF, 0xFF, 0xFF, 0xFF, 0xFF, 0xFF, 0xFF, 0xFF, 0x49]"
  let ?db = "frag_datagram 0 2 [0xFF, 0xFF, 0xFF, 0x49]"
  let ?sa = "A2SStream_init [Datagram (frag_datagram 1 2 [0x6F, 0x6B]), Datagram ?da] [] sample_address"
  let ?sb = "A2SStream_init [Datagram (frag_datagram 1 2 [0x6F, 0x6B]), Datagram ?db] [] sample_address"
  have a: "recv decode_fragment_spec ?sa
      = (Inr [0xFF, 0xFF, 0xFF, 0xFF, 0x49, 0x6F, 0x6B], ?sa\<lparr>socket := socket (A2SStream_init [] [] sample_address)\<rparr>)"
    using recv_multi_strip [of ?sa "frag_datagram 1 2 [0x6F, 0x6B]" "[Datagram ?da]"
        decode_fragment_spec ?f1 "[?f1, ?fa]" "socket (A2SStream_init [] [] sample_address)"
        "[0xFF, 0xFF, 0xFF, 0xFF, 0xFF, 0xFF, 0xFF, 0xFF, 0x49, 0x6F, 0x6B]"]
    by (simp add: A2SStream_init_def frag_datagram_def HEADER_MULTI_def decode_fragment_spec_def
        collect_fragments.simps sock_recv_def)
  have b: "recv decode_fragment_spec ?sb
      = (Inr [0xFF, 0xFF, 0xFF, 0x49, 0x6F, 0x6B], ?sb\<lparr>socket := socket (A2SStream_init [] [] sample_address)\<rparr>)"
    using recv_multi_strip [of ?sb "frag_datagram 1 2 [0x6F, 0x6B]" "[Datagram ?db]"
        decode_fragment_spec ?f1 "[?f1, ?fb]" "socket (A2SStream_init [] [] sample_address)"
        "[0xFF, 0xFF, 0xFF, 0x49, 0x6F, 0x6B]"]
    by (simp add: A2SStream_init_def frag_datagram_def HEADER_MULTI_def decode_fragment_spec_def
        collect_fragments.simps sock_recv_def)
  show ?thesis using a b by (simp add: A2SStream_init_def)
qed

theorem recv_multi_order_independent_witness:
  "recv decode_fragment_spec
     (A2SStream_init [Datagram (frag_datagram 2 3 [0x63]), Datagram (frag_datagram 0 3 [0x61]),
        Datagram (frag_datagram 1 3 [0x62])] [] sample_address)
     = (Inr [0x61, 0x62, 0x63], A2SStream_init [] [] sample_address)
   \<and> recv decode_fragment_spec
     (A2SStream_init [Datagram (frag_datagram 0 3 [0x61]), Datagram (frag_datagram 1 3 [0x62]),
        Datagram (frag_datagram 2 3 [0x63])] [] sample_address)
     = (Inr [0x61, 0x62, 0x63], A2SStream_init [] [] sample_address)"
  using recv_multi_order_independent [of
      "A2SStream_init [Datagram (frag_datagram 2 3 [0x63]), Datagram (frag_datagram 0 3 [0x61]),
        Datagram (frag_datagram 1 3 [0x62])] [] sample_address"
      "[frag_datagram 2 3 [0x63], frag_datagram 0 3 [0x61], frag_datagram 1 3 [0x62]]"
      "[]" decode_fragment_spec
      "[\<lparr>fragment_id = 2, fragment_count = 3, payload = [0x63]\<rparr>,
        \<lparr>fragment_id = 0, fragment_count = 3, payload = [0x61]\<rparr>,
        \<lparr>fragment_id = 1, fragment_count = 3, payload = [0x62]\<rparr>]"
      "[frag_datagram 0 3 [0x61], frag_datagram 1 3 [0x62], frag_datagram 2 3 [0x63]]"]
  by (simp add: A2SStream_init_def frag_datagram_def HEADER_MULTI_def decode_fragment_spec_def
      reassemble_def startswith4)

text \<open>
  Two fragments with distinct ids and the same count, one in a datagram of 4106 bytes. When
  it arrives first it is read whole (\<open>recv(65535)\<close>); when it arrives second it is read
  with \<open>recv(4096)\<close> and loses its last ten bytes. The two arrival orders give
  different buffers.
\<close>

theorem recv_multi_order_counterexample:
  "recv decode_fragment_spec (A2SStream_init [Datagram big_datagram, Datagram small_datagram] [] sample_address)
     = (Inr (replicate 4100 0x61 @ [0x62]), A2SStream_init [] [] sample_address)
   \<and> recv decode_fragment_spec (A2SStream_init [Datagram small_datagram, Datagram big_datagram] [] sample_address)
     = (Inr (replicate 4090 0x61 @ [0x62]), A2SStream_init [] [] sample_address)
   \<and> recv decode_fragment_spec (A2SStream_init [Datagram big_datagram, Datagram small_datagram] [] sample_address)
     \<noteq> recv decode_fragment_spec (A2SStream_init [Datagram small_datagram, Datagram big_datagram] [] sample_address)
   \<and> decode_fragment_spec (drop 4 big_datagram)
     = Inr \<lparr>fragment_id = 0, fragment_count = 2, payload = replicate 4100 0x61\<rparr>
   \<and> decode_fragment_spec (drop 4 small_datagram)
     = Inr \<lparr>fragment_id = 1, fragment_count = 2, payload = [0x62]\<rparr>"
proof -
  have r4: "replicate 4 (0x61 :: byte) = [0x61, 0x61, 0x61, 0x61]" by (simp add: numeral_eq_Suc)
  have a: "recv decode_fragment_spec (A2SStream_init [Datagram big_datagram, Datagram small_datagram] [] sample_address)
     = (Inr (replicate 4100 0x61 @ [0x62]), A2SStream_init [] [] sample_address)"
    by (simp add: transport_eval big_datagram_def small_datagram_def r4)
  have b: "recv decode_fragment_spec (A2SStream_init [Datagram small_datagram, Datagram big_datagram] [] sample_address)
     = (Inr (replicate 4090 0x61 @ [0x62]), A2SStream_init [] [] sample_address)"
    by (simp add: transport_eval big_datagram_def small_datagram_def r4)
  have "length (replicate 4100 (0x61 :: byte) @ [0x62]) \<noteq> length (replicate 4090 (0x61 :: byte) @ [0x62])"
    by simp
  then have c: "replicate 4100 (0x61 :: byte) @ [0x62] \<noteq> replicate 4090 0x61 @ [0x62]"
    by metis
  have d: "decode_fragment_spec (drop 4 big_datagram)
     = Inr \<lparr>fragment_id = 0, fragment_count = 2, payload = replicate 4100 0x61\<rparr>"
    by (simp add: big_datagram_def HEADER_MULTI_def decode_fragment_spec_def)
  have e: "decode_fragment_spec (drop 4 small_datagram)
     = Inr \<lparr>fragment_id = 1, fragment_count = 2, payload = [0x62]\<rparr>"
    by (simp add: small_datagram_def HEADER_MULTI_def decode_fragment_spec_def)
  show ?thesis using a b c d e by simp
qed

section \<open>Properties of the request driver\<close>

lemma step_fail:
  "request dec conn (serialize_request p ch) = (Inl e, conn1) \<Longrightarrow>
   request_sync_impl dec m clk conn enc p ch retries ping = (Inl e, clk\<lparr>ticks := Suc (ticks clk)\<rparr>, conn1)"
  by (simp add: request_sync_impl.simps time_monotonic_def)

lemma step_empty:
  "request dec conn (serialize_request p ch) = (Inr [], conn1) \<Longrightarrow>
   request_sync_impl dec m clk conn enc p ch retries ping
     = (Inl BufferExhaustedError, clk\<lparr>ticks := Suc (Suc (ticks clk))\<rparr>, conn1)"
  by (simp add: request_sync_impl.simps time_monotonic_def ByteReader_init_def read_uint8_def)

lemma step_challenge_retry:
  assumes "request dec conn (serialize_request p ch) = (Inr (0x41 # cb), conn1)"
    and "retries < m" and "4 \<le> length cb"
  shows "request_sync_impl dec m clk conn enc p ch retries ping
     = request_sync_impl dec m (clk\<lparr>ticks := Suc (Suc (ticks clk))\<rparr>) conn1 enc p
         (le_uint (take 4 cb)) (retries + 1)
         (if retries = 0 then Some (first_ping clk) else ping)"
  using assms
  by (subst request_sync_impl.simps)
     (simp add: time_monotonic_def ByteReader_init_def read_uint8_def read_uint32_def
        A2S_CHALLENGE_RESPONSE_def first_ping_def)

lemma step_challenge_short:
  assumes "request dec conn (serialize_request p ch) = (Inr (0x41 # cb), conn1)"
    and "retries < m" and "length cb < 4"
  shows "request_sync_impl dec m clk conn enc p ch retries ping
     = (Inl BufferExhaustedError, clk\<lparr>ticks := Suc (Suc (ticks clk))\<rparr>, conn1)"
  using assms
  by (subst request_sync_impl.simps)
     (simp add: time_monotonic_def ByteReader_init_def read_uint8_def read_uint32_def
        A2S_CHALLENGE_RESPONSE_def)

lemma step_challenge_exceeded:
  assumes "request dec conn (serialize_request p ch) = (Inr (0x41 # cb), conn1)"
    and "m \<le> retries"
  shows "request_sync_impl dec m clk conn enc p ch retries ping
     = (Inl (BrokenMessageError ''Server keeps sending challenge responses''),
        clk\<lparr>ticks := Suc (Suc (ticks clk))\<rparr>, conn1)"
  using assms
  by (subst request_sync_impl.simps)
     (simp add: time_monotonic_def ByteReader_init_def read_uint8_def A2S_CHALLENGE_RESPONSE_def)

lemma step_invalid:
  assumes "request dec conn (serialize_request p ch) = (Inr (b # body), conn1)"
    and "uint b \<noteq> A2S_CHALLENGE_RESPONSE" and "\<not> validate_response_type p (uint b)"
  shows "request_sync_impl dec m clk conn enc p ch retries ping
     = (Inl (BrokenMessageError (''Invalid response type: '' @ hex (uint b))),
        clk\<lparr>ticks := Suc (Suc (ticks clk))\<rparr>, conn1)"
  using assms
  by (subst request_sync_impl.simps)
     (simp add: time_monotonic_def ByteReader_init_def read_uint8_def)

lemma step_deserialize:
  assumes "request dec conn (serialize_request p ch) = (Inr (b # body), conn1)"
    and "uint b \<noteq> A2S_CHALLENGE_RESPONSE" and "validate_response_type p (uint b)"
  shows "request_sync_impl dec m clk conn enc p ch retries ping
     = (deserialize_response p \<lparr>unread = body, endian = ''<'', encoding = enc\<rparr> (uint b)
          (if retries = 0 then Some (first_ping clk) else ping),
        clk\<lparr>ticks := Suc (Suc (ticks clk))\<rparr>, conn1)"
  using assms
  by (subst request_sync_impl.simps)
     (simp add: time_monotonic_def ByteReader_init_def read_uint8_def first_ping_def)

lemma request_simple:
  assumes "\<not> sock_closed (socket conn)" and "send_faults (socket conn) = []"
    and "inbox (socket conn) = Datagram (HEADER_SIMPLE @ body) # rest"
    and "length body + 4 \<le> 65535"
  shows "request dec conn data =
     (Inr body, conn\<lparr>socket := (socket conn)\<lparr>inbox := rest,
        outbox := outbox (socket conn) @ [(HEADER_SIMPLE @ data, address conn)]\<rparr>\<rparr>)"
proof -
  let ?c0 = "conn\<lparr>socket := (socket conn)\<lparr>outbox := outbox (socket conn) @ [(HEADER_SIMPLE @ data, address conn)]\<rparr>\<rparr>"
  have s: "send conn data = (Inr (), ?c0)"
    using assms(1,2) by (simp add: send_def sock_sendto_def)
  have l: "length (HEADER_SIMPLE @ body) \<le> 65535" using assms(4) by (simp add: HEADER_SIMPLE_def)
  have t: "take 4 (HEADER_SIMPLE @ body) = HEADER_SIMPLE" by (simp add: HEADER_SIMPLE_def)
  have d: "drop 4 (HEADER_SIMPLE @ body) = body" by (simp add: HEADER_SIMPLE_def)
  have "recv dec ?c0 = (Inr (drop 4 (HEADER_SIMPLE @ body)), ?c0\<lparr>socket := (socket ?c0)\<lparr>inbox := rest\<rparr>\<rparr>)"
    using assms(1,3) l t by (simp add: recv_def sock_recv_datagram)
  then show ?thesis using s d by (simp add: request_def)
qed

lemma challenge_run:
  assumes "\<not> sock_closed (socket conn)" and "send_faults (socket conn) = []"
    and "\<forall>cb \<in> set cbs. 4 \<le> length cb \<and> length cb \<le> 65530"
    and "inbox (socket conn) = map (\<lambda>cb. Datagram (challenge_datagram cb)) cbs @ rest"
    and "retries + int (length cbs) \<le> m" and "0 \<le> retries"
  shows "request_sync_impl dec m clk conn enc p ch retries ping =
     request_sync_impl dec m (clk\<lparr>ticks := ticks clk + 2 * length cbs\<rparr>)
       (conn\<lparr>socket := (socket conn)\<lparr>inbox := rest,
          outbox := outbox (socket conn) @ map (request_packet p conn) (butlast (ch # map challenge_of cbs))\<rparr>\<rparr>)
       enc p (last (ch # map challenge_of cbs)) (retries + int (length cbs))
       (if cbs \<noteq> [] \<and> retries = 0 then Some (first_ping clk) else ping)"
  using assms
proof (induction cbs arbitrary: conn clk ch retries ping)
  case Nil
  then have "conn\<lparr>socket := (socket conn)\<lparr>inbox := rest, outbox := outbox (socket conn)\<rparr>\<rparr> = conn"
    by simp
  then show ?case by simp
next
  case (Cons cb cbs)
  let ?conn1 = "conn\<lparr>socket := (socket conn)\<lparr>inbox := map (\<lambda>cb. Datagram (challenge_datagram cb)) cbs @ rest,
        outbox := outbox (socket conn) @ [(HEADER_SIMPLE @ serialize_request p ch, address conn)]\<rparr>\<rparr>"
  let ?clk1 = "clk\<lparr>ticks := Suc (Suc (ticks clk))\<rparr>"
  let ?ping1 = "if retries = 0 then Some (first_ping clk) else ping"
  have len: "4 \<le> length cb" "length cb \<le> 65530" using Cons.prems(3) by simp_all
  have ib: "inbox (socket conn) = Datagram (HEADER_SIMPLE @ (0x41 # cb)) # (map (\<lambda>cb. Datagram (challenge_datagram cb)) cbs @ rest)"
    using Cons.prems(4) by (simp add: challenge_datagram_def)
  have rq: "request dec conn (serialize_request p ch) = (Inr (0x41 # cb), ?conn1)"
    using Cons.prems(1,2) ib len by (intro request_simple) simp_all
  have lt: "retries < m" using Cons.prems(5) by simp
  have s1: "request_sync_impl dec m clk conn enc p ch retries ping
     = request_sync_impl dec m ?clk1 ?conn1 enc p (challenge_of cb) (retries + 1) ?ping1"
    using step_challenge_retry [OF rq lt len(1), of clk enc ping] by (simp add: challenge_of_def)
  have ih: "request_sync_impl dec m ?clk1 ?conn1 enc p (challenge_of cb) (retries + 1) ?ping1 =
     request_sync_impl dec m (?clk1\<lparr>ticks := ticks ?clk1 + 2 * length cbs\<rparr>)
       (?conn1\<lparr>socket := (socket ?conn1)\<lparr>inbox := rest,
          outbox := outbox (socket ?conn1) @ map (request_packet p ?conn1) (butlast (challenge_of cb # map challenge_of cbs))\<rparr>\<rparr>)
       enc p (last (challenge_of cb # map challenge_of cbs)) (retries + 1 + int (length cbs))
       (if cbs \<noteq> [] \<and> retries + 1 = 0 then Some (first_ping ?clk1) else ?ping1)"
    using Cons.prems by (intro Cons.IH) simp_all
  have pk: "request_packet p ?conn1 = request_packet p conn"
    by (rule ext) (simp add: request_packet_def)
  have ne: "retries + 1 \<noteq> 0" using Cons.prems(6) by simp
  show ?case
    unfolding s1 ih pk
    using ne by (cases "retries = 0") (simp_all add: request_packet_def [symmetric] add.assoc)
qed

text \<open>
  Claim C8. A response whose first byte \<open>b\<close> is not the challenge tag and is rejected by
  the validator of the protocol kind: the call raises \<open>BrokenMessageError\<close> with the
  message \<open>Invalid response type:\<close> followed by \<open>hex\<close> of the byte, which is
  \<open>0x\<close> and hexadecimal digits that denote the value of the byte. The result is the same
  whatever deserializer \<open>d\<close> the kind has, so the deserializer has no part in it.
\<close>

theorem request_sync_impl_invalid_type:
  assumes "request dec conn (serialize_request p ch) = (Inr (b # body), conn1)"
    and "uint b \<noteq> A2S_CHALLENGE_RESPONSE"
    and "\<not> validate_response_type p (uint b)"
  shows "request_sync_impl dec m clk conn enc (p\<lparr>deserialize_response := d\<rparr>) ch retries ping
           = (Inl (BrokenMessageError (''Invalid response type: '' @ hex (uint b))),
              clk\<lparr>ticks := Suc (Suc (ticks clk))\<rparr>, conn1)
       \<and> hex (uint b) = ''0x'' @ hex_digits (unat b)
       \<and> hex_value (hex_digits (unat b)) = unat b"
proof -
  let ?p = "p\<lparr>deserialize_response := d\<rparr>"
  have rq: "request dec conn (serialize_request ?p ch) = (Inr (b # body), conn1)"
    using assms(1) by simp
  have nv: "\<not> validate_response_type ?p (uint b)" using assms(3) by simp
  have "request_sync_impl dec m clk conn enc ?p ch retries ping
           = (Inl (BrokenMessageError (''Invalid response type: '' @ hex (uint b))),
              clk\<lparr>ticks := Suc (Suc (ticks clk))\<rparr>, conn1)"
    using rq assms(2) nv by (rule step_invalid)
  moreover have "hex (uint b) = ''0x'' @ hex_digits (unat b)"
    by (simp add: hex_def)
  ultimately show ?thesis by (simp add: hex_value_hex_digits)
qed

lemma uint_eq_challenge: "uint (b :: byte) = A2S_CHALLENGE_RESPONSE \<longleftrightarrow> b = 0x41"
proof
  assume "uint b = A2S_CHALLENGE_RESPONSE"
  then have "word_of_int (uint b) = (word_of_int 0x41 :: byte)"
    by (simp add: A2S_CHALLENGE_RESPONSE_def)
  then show "b = 0x41" by simp
next
  assume "b = 0x41"
  then show "uint b = A2S_CHALLENGE_RESPONSE" by (simp add: A2S_CHALLENGE_RESPONSE_def)
qed

lemma driver_after_request:
  assumes refl: "\<And>c. R c c"
    and step: "\<And>c d r c1. request dec c d = (r, c1) \<Longrightarrow> R c c1"
    and trans: "\<And>a b c. R a b \<Longrightarrow> R b c \<Longrightarrow> R a c"
    and "request dec conn (serialize_request p ch) = (r, conn1)"
  shows "R conn1 (snd (snd (request_sync_impl dec m clk conn enc p ch retries ping)))"
  using assms(4)
proof (induction "nat (m - retries)" arbitrary: clk conn ch retries ping r conn1 rule: less_induct)
  case less
  note rq = less.prems
  show ?case
  proof (cases r)
    case (Inl e)
    show ?thesis using step_fail [OF rq [unfolded Inl]] refl by simp
  next
    case (Inr resp)
    show ?thesis
    proof (cases resp)
      case Nil
      show ?thesis using step_empty [OF rq [unfolded Inr Nil]] refl by simp
    next
      case (Cons b body)
      note rqc = rq [unfolded Inr Cons]
      show ?thesis
      proof (cases "b = 0x41")
        case True
        note rqt = rqc [unfolded True]
        show ?thesis
        proof (cases "m \<le> retries")
          case True
          show ?thesis using step_challenge_exceeded [OF rqt True] refl by simp
        next
          case False
          then have lt: "retries < m" by simp
          show ?thesis
          proof (cases "length body < 4")
            case True
            show ?thesis using step_challenge_short [OF rqt lt True] refl by simp
          next
            case False
            then have ge4: "4 \<le> length body" by simp
            let ?clk2 = "clk\<lparr>ticks := Suc (Suc (ticks clk))\<rparr>"
            let ?ping1 = "if retries = 0 then Some (first_ping clk) else ping"
            let ?ch1 = "le_uint (take 4 body)"
            obtain r2 conn2 where rq2: "request dec conn1 (serialize_request p ?ch1) = (r2, conn2)"
              by fastforce
            have m: "nat (m - (retries + 1)) < nat (m - retries)" using lt by simp
            have "R conn2 (snd (snd (request_sync_impl dec m ?clk2 conn1 enc p ?ch1 (retries + 1) ?ping1)))"
              by (rule less.hyps [OF m rq2])
            moreover have "R conn1 conn2" using rq2 by (rule step)
            ultimately have "R conn1 (snd (snd (request_sync_impl dec m ?clk2 conn1 enc p ?ch1 (retries + 1) ?ping1)))"
              by (rule trans [rotated])
            then show ?thesis
              using step_challenge_retry [OF rqt lt ge4, of clk enc ping] by simp
          qed
        qed
      next
        case False
        then have nb: "uint b \<noteq> A2S_CHALLENGE_RESPONSE" by (simp add: uint_eq_challenge)
        show ?thesis
        proof (cases "validate_response_type p (uint b)")
          case True
          show ?thesis using step_deserialize [OF rqc nb True, of m clk enc retries ping] refl by simp
        next
          case False
          show ?thesis using step_invalid [OF rqc nb False, of m clk enc retries ping] refl by simp
        qed
      qed
    qed
  qed
qed

lemma driver_keeps_open:
  "sock_closed (socket (snd (snd (request_sync_impl dec m clk conn enc p ch retries ping))))
   = sock_closed (socket conn)"
proof -
  obtain r conn1 where rq: "request dec conn (serialize_request p ch) = (r, conn1)" by fastforce
  have "sock_closed (socket (snd (snd (request_sync_impl dec m clk conn enc p ch retries ping))))
      = sock_closed (socket conn1)"
    by (rule driver_after_request
        [where R = "\<lambda>a b. sock_closed (socket b) = sock_closed (socket a)", OF _ _ _ rq])
       (auto dest: request_keeps)
  then show ?thesis using request_keeps [OF rq] by simp
qed



lemma ping_passed_later:
  "1 \<le> retries \<Longrightarrow>
   request_sync_impl dec m clk conn enc p ch retries ping =
   request_sync_impl dec m clk conn enc
     (p\<lparr>deserialize_response := \<lambda>r t _. deserialize_response p r t ping\<rparr>) ch retries ping"
proof (induction "nat (m - retries)" arbitrary: clk conn ch retries rule: less_induct)
  case less
  let ?p = "p\<lparr>deserialize_response := \<lambda>r t _. deserialize_response p r t ping\<rparr>"
  from less.prems have r0: "retries \<noteq> 0" by simp
  obtain r conn1 where rq: "request dec conn (serialize_request p ch) = (r, conn1)" by fastforce
  then have rq': "request dec conn (serialize_request ?p ch) = (r, conn1)" by simp
  show ?case
  proof (cases r)
    case (Inl e)
    show ?thesis using step_fail [OF rq [unfolded Inl]] step_fail [OF rq' [unfolded Inl]] by simp
  next
    case (Inr resp)
    show ?thesis
    proof (cases resp)
      case Nil
      show ?thesis using step_empty [OF rq [unfolded Inr Nil]] step_empty [OF rq' [unfolded Inr Nil]]
        by simp
    next
      case (Cons b body)
      note rqc = rq [unfolded Inr Cons] and rqc' = rq' [unfolded Inr Cons]
      show ?thesis
      proof (cases "b = 0x41")
        case True
        note rqt = rqc [unfolded True] and rqt' = rqc' [unfolded True]
        show ?thesis
        proof (cases "m \<le> retries")
          case True
          show ?thesis
            using step_challenge_exceeded [OF rqt True] step_challenge_exceeded [OF rqt' True] by simp
        next
          case False
          then have lt: "retries < m" by simp
          show ?thesis
          proof (cases "length body < 4")
            case True
            show ?thesis
              using step_challenge_short [OF rqt lt True] step_challenge_short [OF rqt' lt True]
              by simp
          next
            case False
            then have ge4: "4 \<le> length body" by simp
            have m: "nat (m - (retries + 1)) < nat (m - retries)" using lt by simp
            have ih: "request_sync_impl dec m (clk\<lparr>ticks := Suc (Suc (ticks clk))\<rparr>) conn1 enc p
                  (le_uint (take 4 body)) (retries + 1) ping
                = request_sync_impl dec m (clk\<lparr>ticks := Suc (Suc (ticks clk))\<rparr>) conn1 enc ?p
                  (le_uint (take 4 body)) (retries + 1) ping"
              using less.prems by (intro less.hyps [OF m]) simp
            show ?thesis
              using step_challenge_retry [OF rqt lt ge4, of clk enc ping]
                step_challenge_retry [OF rqt' lt ge4, of clk enc ping] r0 ih by simp
          qed
        qed
      next
        case False
        then have nb: "uint b \<noteq> A2S_CHALLENGE_RESPONSE"
          by (simp add: uint_eq_challenge)
        show ?thesis
        proof (cases "validate_response_type p (uint b)")
          case True
          then have v': "validate_response_type ?p (uint b)" by simp
          show ?thesis
            using step_deserialize [OF rqc nb True, of m clk enc retries ping]
              step_deserialize [OF rqc' nb v', of m clk enc retries ping] r0 by simp
        next
          case False
          then have v': "\<not> validate_response_type ?p (uint b)" by simp
          show ?thesis
            using step_invalid [OF rqc nb False, of m clk enc retries ping]
              step_invalid [OF rqc' nb v', of m clk enc retries ping] by simp
        qed
      qed
    qed
  qed
qed

lemma ping_first_attempt:
  "request_sync_impl dec m clk conn enc p ch 0 ping =
   request_sync_impl dec m clk conn enc
     (p\<lparr>deserialize_response := \<lambda>r t _. deserialize_response p r t (Some (first_ping clk))\<rparr>) ch 0 ping"
proof -
  let ?fp = "Some (first_ping clk)"
  let ?p = "p\<lparr>deserialize_response := \<lambda>r t _. deserialize_response p r t ?fp\<rparr>"
  obtain r conn1 where rq: "request dec conn (serialize_request p ch) = (r, conn1)" by fastforce
  then have rq': "request dec conn (serialize_request ?p ch) = (r, conn1)" by simp
  show ?thesis
  proof (cases r)
    case (Inl e)
    show ?thesis using step_fail [OF rq [unfolded Inl]] step_fail [OF rq' [unfolded Inl]] by simp
  next
    case (Inr resp)
    show ?thesis
    proof (cases resp)
      case Nil
      show ?thesis using step_empty [OF rq [unfolded Inr Nil]] step_empty [OF rq' [unfolded Inr Nil]]
        by simp
    next
      case (Cons b body)
      note rqc = rq [unfolded Inr Cons] and rqc' = rq' [unfolded Inr Cons]
      show ?thesis
      proof (cases "b = 0x41")
        case True
        note rqt = rqc [unfolded True] and rqt' = rqc' [unfolded True]
        show ?thesis
        proof (cases "m \<le> 0")
          case True
          show ?thesis
            using step_challenge_exceeded [OF rqt True] step_challenge_exceeded [OF rqt' True] by simp
        next
          case False
          then have lt: "0 < m" by simp
          show ?thesis
          proof (cases "length body < 4")
            case True
            show ?thesis
              using step_challenge_short [OF rqt lt True] step_challenge_short [OF rqt' lt True]
              by simp
          next
            case False
            then have ge4: "4 \<le> length body" by simp
            have later: "request_sync_impl dec m (clk\<lparr>ticks := Suc (Suc (ticks clk))\<rparr>) conn1 enc p
                  (le_uint (take 4 body)) 1 ?fp
                = request_sync_impl dec m (clk\<lparr>ticks := Suc (Suc (ticks clk))\<rparr>) conn1 enc ?p
                  (le_uint (take 4 body)) 1 ?fp"
              by (rule ping_passed_later) simp
            show ?thesis
              using step_challenge_retry [OF rqt lt ge4, of clk enc ping]
                step_challenge_retry [OF rqt' lt ge4, of clk enc ping] later by simp
          qed
        qed
      next
        case False
        then have nb: "uint b \<noteq> A2S_CHALLENGE_RESPONSE"
          by (simp add: uint_eq_challenge)
        show ?thesis
        proof (cases "validate_response_type p (uint b)")
          case True
          then have v': "validate_response_type ?p (uint b)" by simp
          show ?thesis
            using step_deserialize [OF rqc nb True, of m clk enc 0 ping]
              step_deserialize [OF rqc' nb v', of m clk enc 0 ping] by simp
        next
          case False
          then have v': "\<not> validate_response_type ?p (uint b)" by simp
          show ?thesis
            using step_invalid [OF rqc nb False, of m clk enc 0 ping]
              step_invalid [OF rqc' nb v', of m clk enc 0 ping] by simp
        qed
      qed
    qed
  qed
qed

text \<open>
  Claim C2. A call that starts with \<open>retries = 0\<close> behaves, for every deserializer, as
  the same call with a deserializer that ignores the ping it is handed and takes the ping of the
  first attempt (second clock reading of the call minus the first) instead: the ping handed to
  the deserializer is that of the first attempt, however many challenge retries come between.
  The first reading is taken before the request and the second after it: when the first
  request raises, the clock has been read once and no more; when it returns a response that
  goes to the deserializer, the clock has been read twice, and the ping is the second reading
  minus the first.
\<close>

theorem request_sync_impl_ping:
  "request_sync_impl dec m clk conn enc p ch 0 ping =
     request_sync_impl dec m clk conn enc
       (p\<lparr>deserialize_response := \<lambda>r t _. deserialize_response p r t (Some (first_ping clk))\<rparr>) ch 0 ping
   \<and> (\<forall>e conn1. request dec conn (serialize_request p ch) = (Inl e, conn1) \<longrightarrow>
         request_sync_impl dec m clk conn enc p ch 0 ping
           = (Inl e, clk\<lparr>ticks := Suc (ticks clk)\<rparr>, conn1))
   \<and> (\<forall>b body conn1. request dec conn (serialize_request p ch) = (Inr (b # body), conn1)
           \<and> uint b \<noteq> A2S_CHALLENGE_RESPONSE \<and> validate_response_type p (uint b) \<longrightarrow>
         request_sync_impl dec m clk conn enc p ch 0 ping
           = (deserialize_response p \<lparr>unread = body, endian = ''<'', encoding = enc\<rparr> (uint b)
                (Some (readings clk (Suc (ticks clk)) - readings clk (ticks clk))),
              clk\<lparr>ticks := Suc (Suc (ticks clk))\<rparr>, conn1))"
proof (intro conjI allI impI)
  show "request_sync_impl dec m clk conn enc p ch 0 ping =
     request_sync_impl dec m clk conn enc
       (p\<lparr>deserialize_response := \<lambda>r t _. deserialize_response p r t (Some (first_ping clk))\<rparr>) ch 0 ping"
    by (rule ping_first_attempt)
next
  fix e conn1
  assume "request dec conn (serialize_request p ch) = (Inl e, conn1)"
  then show "request_sync_impl dec m clk conn enc p ch 0 ping
      = (Inl e, clk\<lparr>ticks := Suc (ticks clk)\<rparr>, conn1)"
    by (rule step_fail)
next
  fix b body conn1
  assume a: "request dec conn (serialize_request p ch) = (Inr (b # body), conn1)
      \<and> uint b \<noteq> A2S_CHALLENGE_RESPONSE \<and> validate_response_type p (uint b)"
  then have "request_sync_impl dec m clk conn enc p ch 0 ping
      = (deserialize_response p \<lparr>unread = body, endian = ''<'', encoding = enc\<rparr> (uint b)
           (if (0::int) = 0 then Some (first_ping clk) else ping),
         clk\<lparr>ticks := Suc (Suc (ticks clk))\<rparr>, conn1)"
    by (intro step_deserialize) simp_all
  then show "request_sync_impl dec m clk conn enc p ch 0 ping
      = (deserialize_response p \<lparr>unread = body, endian = ''<'', encoding = enc\<rparr> (uint b)
           (Some (readings clk (Suc (ticks clk)) - readings clk (ticks clk))),
         clk\<lparr>ticks := Suc (Suc (ticks clk))\<rparr>, conn1)"
    by (simp add: first_ping_def)
qed

lemma challenge_run_then_response:
  assumes "\<not> sock_closed (socket conn)" and "send_faults (socket conn) = []"
    and "\<forall>cb \<in> set cbs. 4 \<le> length cb \<and> length cb \<le> 65530"
    and "inbox (socket conn) =
           map (\<lambda>cb. Datagram (challenge_datagram cb)) cbs @ Datagram (HEADER_SIMPLE @ b # body) # rest"
    and "uint b \<noteq> A2S_CHALLENGE_RESPONSE" and "length body < 65531"
    and "retries + int (length cbs) \<le> m" and "0 \<le> retries"
  shows "request_sync_impl dec m clk conn enc p ch retries ping =
     (if validate_response_type p (uint b)
      then deserialize_response p \<lparr>unread = body, endian = ''<'', encoding = enc\<rparr> (uint b)
             (if retries = 0 then Some (first_ping clk) else ping)
      else Inl (BrokenMessageError (''Invalid response type: '' @ hex (uint b))),
      clk\<lparr>ticks := ticks clk + 2 * length cbs + 2\<rparr>,
      conn\<lparr>socket := (socket conn)\<lparr>inbox := rest,
        outbox := outbox (socket conn) @ map (request_packet p conn) (ch # map challenge_of cbs)\<rparr>\<rparr>)"
proof -
  let ?chs = "ch # map challenge_of cbs"
  let ?clk' = "clk\<lparr>ticks := ticks clk + 2 * length cbs\<rparr>"
  let ?conn' = "conn\<lparr>socket := (socket conn)\<lparr>inbox := Datagram (HEADER_SIMPLE @ b # body) # rest,
          outbox := outbox (socket conn) @ map (request_packet p conn) (butlast ?chs)\<rparr>\<rparr>"
  let ?ping' = "if cbs \<noteq> [] \<and> retries = 0 then Some (first_ping clk) else ping"
  let ?conn'' = "conn\<lparr>socket := (socket conn)\<lparr>inbox := rest,
        outbox := outbox (socket conn) @ map (request_packet p conn) ?chs\<rparr>\<rparr>"
  have run: "request_sync_impl dec m clk conn enc p ch retries ping =
     request_sync_impl dec m ?clk' ?conn' enc p (last ?chs) (retries + int (length cbs)) ?ping'"
    using assms(1,2,3,4,7,8) by (rule challenge_run)
  have bl: "butlast ?chs @ [last ?chs] = ?chs" by (rule append_butlast_last_id) simp
  have "map (request_packet p conn) (butlast ?chs) @ [request_packet p conn (last ?chs)]
      = map (request_packet p conn) (butlast ?chs @ [last ?chs])" by simp
  then have ob: "map (request_packet p conn) (butlast ?chs) @ [request_packet p conn (last ?chs)]
      = map (request_packet p conn) ?chs" unfolding bl .
  have "request dec ?conn' (serialize_request p (last ?chs)) =
     (Inr (b # body), ?conn'\<lparr>socket := (socket ?conn')\<lparr>inbox := rest,
        outbox := outbox (socket ?conn') @ [(HEADER_SIMPLE @ serialize_request p (last ?chs), address ?conn')]\<rparr>\<rparr>)"
    using assms(1,2,6) by (intro request_simple) simp_all
  then have rq: "request dec ?conn' (serialize_request p (last ?chs)) = (Inr (b # body), ?conn'')"
    using ob by (simp add: request_packet_def)
  have ping: "(if retries + int (length cbs) = 0 then Some (first_ping ?clk') else ?ping')
      = (if retries = 0 then Some (first_ping clk) else ping)"
    using assms(8) by (cases cbs) auto
  show ?thesis
  proof (cases "validate_response_type p (uint b)")
    case True
    show ?thesis
      unfolding run
      using step_deserialize [OF rq assms(5) True, of m ?clk' enc "retries + int (length cbs)" ?ping']
        True ping by simp
  next
    case False
    show ?thesis
      unfolding run
      using step_invalid [OF rq assms(5) False, of m ?clk' enc "retries + int (length cbs)" ?ping']
        False by simp
  qed
qed




text \<open>
  Claim C9, as the code has it. \<open>close\<close> is idempotent and closes the socket, and so does
  \<open>__del__\<close>. \<open>request_sync_impl\<close> never closes the socket of the fresh stream.
  \<open>request_sync\<close> returns what \<open>request_sync_impl\<close> returns, with the socket closed
  when that is a response and the stream untouched when it is an exception: after a response
  the socket is closed; after an exception the socket is still open when the call is left, and
  closed once the stream is discarded.
\<close>

theorem request_sync_releases_socket:
  "close (close self) = close self
   \<and> sock_closed (socket (close self))
   \<and> sock_closed (socket (A2SStream_del self))
   \<and> \<not> sock_closed (socket (snd (snd
         (request_sync_impl dec m clk (A2SStream_init arriving faults addr) enc p 0 0 None))))
   \<and> request_sync dec m arriving faults clk addr enc p =
       (case request_sync_impl dec m clk (A2SStream_init arriving faults addr) enc p 0 0 None of
          (Inr response, clk1, conn1) \<Rightarrow>
            (Inr response, clk1, conn1\<lparr>socket := (socket conn1)\<lparr>sock_closed := True\<rparr>\<rparr>)
        | (Inl e, clk1, conn1) \<Rightarrow> (Inl e, clk1, conn1))
   \<and> (\<forall>response clk1 conn1.
         request_sync dec m arriving faults clk addr enc p = (Inr response, clk1, conn1) \<longrightarrow>
         sock_closed (socket conn1))
   \<and> (\<forall>e clk1 conn1.
         request_sync dec m arriving faults clk addr enc p = (Inl e, clk1, conn1) \<longrightarrow>
         \<not> sock_closed (socket conn1) \<and> sock_closed (socket (A2SStream_del conn1)))"
proof -
  let ?run = "request_sync_impl dec m clk (A2SStream_init arriving faults addr) enc p 0 0 None"
  have "sock_closed (socket (snd (snd ?run))) = sock_closed (socket (A2SStream_init arriving faults addr))"
    by (rule driver_keeps_open)
  then have opn: "\<not> sock_closed (socket (snd (snd ?run)))" by (simp add: A2SStream_init_def)
  obtain r clk1 conn1 where run: "?run = (r, clk1, conn1)" by (metis prod_cases3)
  have o1: "\<not> sock_closed (socket conn1)" using opn run by simp
  have eq: "request_sync dec m arriving faults clk addr enc p =
       (case ?run of
          (Inr response, clk1, conn1) \<Rightarrow>
            (Inr response, clk1, conn1\<lparr>socket := (socket conn1)\<lparr>sock_closed := True\<rparr>\<rparr>)
        | (Inl e, clk1, conn1) \<Rightarrow> (Inl e, clk1, conn1))"
    by (simp add: request_sync_def close_def sock_close_def Let_def split: prod.splits sum.splits)
  have a: "\<forall>response clk1 conn1.
         request_sync dec m arriving faults clk addr enc p = (Inr response, clk1, conn1) \<longrightarrow>
         sock_closed (socket conn1)"
    unfolding eq run by (cases r) auto
  have b: "\<forall>e clk1 conn1.
         request_sync dec m arriving faults clk addr enc p = (Inl e, clk1, conn1) \<longrightarrow>
         \<not> sock_closed (socket conn1) \<and> sock_closed (socket (A2SStream_del conn1))"
    unfolding eq run using o1 by (cases r) (auto simp: A2SStream_del_def close_def sock_close_def)
  have c: "close (close self) = close self" "sock_closed (socket (close self))"
    "sock_closed (socket (A2SStream_del self))"
    by (simp_all add: A2SStream_del_def close_def sock_close_def)
  from c opn eq a b show ?thesis by blast
qed

text \<open>Concrete runs of the driver: the theorems above at sample inputs.\<close>

lemmas driver_eval =
  challenge_of_def A2SStream_init_def sample_protocol_def sample_clock_def sample_address_def le_bytes4_def
  challenge_datagram_def request_packet_def first_ping_def HEADER_SIMPLE_def

theorem request_sync_impl_invalid_type_witness:
  "request_sync_impl decode_fragment_spec 5 sample_clock
     (A2SStream_init [Datagram (HEADER_SIMPLE @ [0x99, 0x07])] [] sample_address) ''utf-8''
     sample_protocol 0 0 None
   = (Inl (BrokenMessageError ''Invalid response type: 0x99''),
      sample_clock\<lparr>ticks := 2\<rparr>,
      \<lparr>address = sample_address,
       socket = \<lparr>sock_closed = False, inbox = [], send_faults = [],
                 outbox = [([0xFF, 0xFF, 0xFF, 0xFF, 0x55, 0, 0, 0, 0], sample_address)]\<rparr>\<rparr>)
   \<and> hex_value ''99'' = 0x99"
proof -
  let ?conn = "A2SStream_init [Datagram (HEADER_SIMPLE @ [0x99, 0x07])] [] sample_address"
  let ?conn1 = "\<lparr>address = sample_address,
       socket = \<lparr>sock_closed = False, inbox = [], send_faults = [],
                 outbox = [([0xFF, 0xFF, 0xFF, 0xFF, 0x55, 0, 0, 0, 0], sample_address)]\<rparr>\<rparr>"
  have rq: "request decode_fragment_spec ?conn (serialize_request sample_protocol 0) = (Inr [0x99, 0x07], ?conn1)"
    by (simp add: request_def send_def sock_sendto_def recv_def sock_recv_def driver_eval)
  have nc: "uint (0x99 :: byte) \<noteq> A2S_CHALLENGE_RESPONSE" by (simp add: A2S_CHALLENGE_RESPONSE_def)
  have nv: "\<not> validate_response_type sample_protocol (uint (0x99 :: byte))"
    by (simp add: sample_protocol_def)
  have hx: "hex_digits 153 = ''99''"
    by (simp add: hex_digits.simps hex_digit_def)
  from request_sync_impl_invalid_type [OF rq nc nv, of 5 sample_clock "''utf-8''"
      "deserialize_response sample_protocol" 0 None]
  show ?thesis by (simp add: hx hex_def sample_clock_def)
qed


theorem request_sync_impl_ping_witness:
  "request_sync_impl decode_fragment_spec 5 sample_clock
     (A2SStream_init [Datagram (challenge_datagram [0x78, 0x56, 0x34, 0x12]),
        Datagram (HEADER_SIMPLE @ [0x44, 0x07])] [] sample_address)
     ''utf-8'' sample_protocol 0 0 None
   = (Inr ([0x07], Some 10),
      sample_clock\<lparr>ticks := 4\<rparr>,
      \<lparr>address = sample_address,
       socket = \<lparr>sock_closed = False, inbox = [], send_faults = [],
                 outbox = [([0xFF, 0xFF, 0xFF, 0xFF, 0x55, 0, 0, 0, 0], sample_address),
                           ([0xFF, 0xFF, 0xFF, 0xFF, 0x55, 0x78, 0x56, 0x34, 0x12], sample_address)]\<rparr>\<rparr>)
   \<and> readings sample_clock 1 - readings sample_clock 0 = 10
   \<and> readings sample_clock 3 - readings sample_clock 2 = 50
   \<and> request_sync_impl decode_fragment_spec 5 sample_clock
     (A2SStream_init [] [] sample_address) ''utf-8'' sample_protocol 0 0 None
   = (Inl TimeoutError, sample_clock\<lparr>ticks := 1\<rparr>,
      \<lparr>address = sample_address,
       socket = \<lparr>sock_closed = False, inbox = [], send_faults = [],
                 outbox = [([0xFF, 0xFF, 0xFF, 0xFF, 0x55, 0, 0, 0, 0], sample_address)]\<rparr>\<rparr>)"
proof -
  let ?conn = "A2SStream_init [Datagram (challenge_datagram [0x78, 0x56, 0x34, 0x12]),
        Datagram (HEADER_SIMPLE @ [0x44, 0x07])] [] sample_address"
  let ?p = "sample_protocol\<lparr>deserialize_response :=
      \<lambda>r t _. deserialize_response sample_protocol r t (Some (first_ping sample_clock))\<rparr>"
  let ?c0 = "A2SStream_init [] [] sample_address"
  let ?c1 = "\<lparr>address = sample_address,
       socket = \<lparr>sock_closed = False, inbox = [], send_faults = [],
                 outbox = [([0xFF, 0xFF, 0xFF, 0xFF, 0x55, 0, 0, 0, 0], sample_address)]\<rparr>\<rparr>"
  have nc: "uint (0x44 :: byte) \<noteq> A2S_CHALLENGE_RESPONSE" by (simp add: A2S_CHALLENGE_RESPONSE_def)
  have run: "request_sync_impl decode_fragment_spec 5 sample_clock ?conn ''utf-8'' ?p 0 0 None
   = (Inr ([0x07], Some 10),
      sample_clock\<lparr>ticks := 4\<rparr>,
      \<lparr>address = sample_address,
       socket = \<lparr>sock_closed = False, inbox = [], send_faults = [],
                 outbox = [([0xFF, 0xFF, 0xFF, 0xFF, 0x55, 0, 0, 0, 0], sample_address),
                           ([0xFF, 0xFF, 0xFF, 0xFF, 0x55, 0x78, 0x56, 0x34, 0x12], sample_address)]\<rparr>\<rparr>)"
    using challenge_run_then_response [of ?conn "[[0x78, 0x56, 0x34, 0x12]]" "0x44" "[0x07]" "[]"
        0 5 decode_fragment_spec sample_clock "''utf-8''" ?p 0 None] nc
    by (simp add: driver_eval)
  have a: "request_sync_impl decode_fragment_spec 5 sample_clock ?conn ''utf-8'' sample_protocol 0 0 None
   = (Inr ([0x07], Some 10),
      sample_clock\<lparr>ticks := 4\<rparr>,
      \<lparr>address = sample_address,
       socket = \<lparr>sock_closed = False, inbox = [], send_faults = [],
                 outbox = [([0xFF, 0xFF, 0xFF, 0xFF, 0x55, 0, 0, 0, 0], sample_address),
                           ([0xFF, 0xFF, 0xFF, 0xFF, 0x55, 0x78, 0x56, 0x34, 0x12], sample_address)]\<rparr>\<rparr>)"
    using run request_sync_impl_ping [of decode_fragment_spec 5 sample_clock ?conn "''utf-8''"
        sample_protocol 0 None]
    by simp
  have rq0: "request decode_fragment_spec ?c0 (serialize_request sample_protocol 0)
     = (Inl TimeoutError, ?c1)"
    by (simp add: request_def send_def sock_sendto_def recv_def sock_recv_def driver_eval)
  have b: "request_sync_impl decode_fragment_spec 5 sample_clock ?c0 ''utf-8'' sample_protocol 0 0 None
   = (Inl TimeoutError, sample_clock\<lparr>ticks := 1\<rparr>, ?c1)"
    using request_sync_impl_ping [of decode_fragment_spec 5 sample_clock ?c0 "''utf-8''"
        sample_protocol 0 None, THEN conjunct2, THEN conjunct1, rule_format, OF rq0]
    by (simp add: sample_clock_def)
  from a b show ?thesis by (simp add: sample_clock_def)
qed

text \<open>
  The timeout run: one request is sent, nothing arrives, and \<open>request_sync\<close> is left by
  the exception with the socket still open.
\<close>

theorem request_sync_releases_socket_counterexample:
  "request_sync decode_fragment_spec 5 [] [] sample_clock sample_address ''utf-8'' sample_protocol
   = (Inl TimeoutError, sample_clock\<lparr>ticks := 1\<rparr>,
      \<lparr>address = sample_address,
       socket = \<lparr>sock_closed = False, inbox = [], send_faults = [],
                 outbox = [([0xFF, 0xFF, 0xFF, 0xFF, 0x55, 0, 0, 0, 0], sample_address)]\<rparr>\<rparr>)
   \<and> \<not> sock_closed (socket (snd (snd
        (request_sync decode_fragment_spec 5 [] [] sample_clock sample_address ''utf-8'' sample_protocol))))"
proof -
  let ?c0 = "A2SStream_init [] [] sample_address"
  have rq0: "request decode_fragment_spec ?c0 (serialize_request sample_protocol 0)
     = (Inl TimeoutError, \<lparr>address = sample_address,
       socket = \<lparr>sock_closed = False, inbox = [], send_faults = [],
                 outbox = [([0xFF, 0xFF, 0xFF, 0xFF, 0x55, 0, 0, 0, 0], sample_address)]\<rparr>\<rparr>)"
    by (simp add: request_def send_def sock_sendto_def recv_def sock_recv_def driver_eval)
  have a: "request_sync decode_fragment_spec 5 [] [] sample_clock sample_address ''utf-8'' sample_protocol
   = (Inl TimeoutError, sample_clock\<lparr>ticks := 1\<rparr>,
      \<lparr>address = sample_address,
       socket = \<lparr>sock_closed = False, inbox = [], send_faults = [],
                 outbox = [([0xFF, 0xFF, 0xFF, 0xFF, 0x55, 0, 0, 0, 0], sample_address)]\<rparr>\<rparr>)"
    using step_fail [OF rq0, of 5 sample_clock "''utf-8''" 0 None]
    by (simp add: request_sync_def sample_clock_def)
  then show ?thesis by simp
qed

theorem request_sync_releases_socket_witness:
  "request_sync decode_fragment_spec 5 [Datagram (HEADER_SIMPLE @ [0x99, 0x07])] [] sample_clock
        sample_address ''utf-8'' sample_protocol
   = (Inl (BrokenMessageError ''Invalid response type: 0x99''), sample_clock\<lparr>ticks := 2\<rparr>,
      \<lparr>address = sample_address,
       socket = \<lparr>sock_closed = False, inbox = [], send_faults = [],
                 outbox = [([0xFF, 0xFF, 0xFF, 0xFF, 0x55, 0, 0, 0, 0], sample_address)]\<rparr>\<rparr>)
   \<and> sock_closed (socket (A2SStream_del
        \<lparr>address = sample_address,
         socket = \<lparr>sock_closed = False, inbox = [], send_faults = [],
                   outbox = [([0xFF, 0xFF, 0xFF, 0xFF, 0x55, 0, 0, 0, 0], sample_address)]\<rparr>\<rparr>))
   \<and> request_sync decode_fragment_spec 5 [Datagram (HEADER_SIMPLE @ [0x44, 0x07])] [] sample_clock
        sample_address ''utf-8'' sample_protocol
   = (Inr ([0x07], Some 10), sample_clock\<lparr>ticks := 2\<rparr>,
      \<lparr>address = sample_address,
       socket = \<lparr>sock_closed = True, inbox = [], send_faults = [],
                 outbox = [([0xFF, 0xFF, 0xFF, 0xFF, 0x55, 0, 0, 0, 0], sample_address)]\<rparr>\<rparr>)"
proof -
  let ?ce = "A2SStream_init [Datagram (HEADER_SIMPLE @ [0x99, 0x07])] [] sample_address"
  let ?c1 = "A2SStream_init [Datagram (HEADER_SIMPLE @ [0x44, 0x07])] [] sample_address"
  let ?left = "\<lparr>address = sample_address,
       socket = \<lparr>sock_closed = False, inbox = [], send_faults = [],
                 outbox = [([0xFF, 0xFF, 0xFF, 0xFF, 0x55, 0, 0, 0, 0], sample_address)]\<rparr>\<rparr>"
  have n9: "uint (0x99 :: byte) \<noteq> A2S_CHALLENGE_RESPONSE" by (simp add: A2S_CHALLENGE_RESPONSE_def)
  have hx: "hex_digits 153 = ''99''" by (simp add: hex_digits.simps hex_digit_def)
  have ie: "request_sync_impl decode_fragment_spec 5 sample_clock ?ce ''utf-8'' sample_protocol 0 0 None
   = (Inl (BrokenMessageError ''Invalid response type: 0x99''), sample_clock\<lparr>ticks := 2\<rparr>, ?left)"
    using challenge_run_then_response [of ?ce "[]" "0x99" "[0x07]" "[]"
        0 5 decode_fragment_spec sample_clock "''utf-8''" sample_protocol 0 None] n9
    by (simp add: driver_eval hex_def hx)
  have nc: "uint (0x44 :: byte) \<noteq> A2S_CHALLENGE_RESPONSE" by (simp add: A2S_CHALLENGE_RESPONSE_def)
  have ir: "request_sync_impl decode_fragment_spec 5 sample_clock ?c1 ''utf-8'' sample_protocol 0 0 None
   = (Inr ([0x07], Some 10), sample_clock\<lparr>ticks := 2\<rparr>, ?left)"
    using challenge_run_then_response [of ?c1 "[]" "0x44" "[0x07]" "[]"
        0 5 decode_fragment_spec sample_clock "''utf-8''" sample_protocol 0 None] nc
    by (simp add: driver_eval)
  note te = request_sync_releases_socket [of ?left decode_fragment_spec 5 sample_clock
      "[Datagram (HEADER_SIMPLE @ [0x99, 0x07])]" "[]" sample_address "''utf-8''" sample_protocol]
  note tr = request_sync_releases_socket [of ?left decode_fragment_spec 5 sample_clock
      "[Datagram (HEADER_SIMPLE @ [0x44, 0x07])]" "[]" sample_address "''utf-8''" sample_protocol]
  have a: "request_sync decode_fragment_spec 5 [Datagram (HEADER_SIMPLE @ [0x99, 0x07])] [] sample_clock
        sample_address ''utf-8'' sample_protocol
   = (Inl (BrokenMessageError ''Invalid response type: 0x99''), sample_clock\<lparr>ticks := 2\<rparr>, ?left)"
    using te ie by simp
  have b: "request_sync decode_fragment_spec 5 [Datagram (HEADER_SIMPLE @ [0x44, 0x07])] [] sample_clock
        sample_address ''utf-8'' sample_protocol
   = (Inr ([0x07], Some 10), sample_clock\<lparr>ticks := 2\<rparr>,
      \<lparr>address = sample_address,
       socket = \<lparr>sock_closed = True, inbox = [], send_faults = [],
                 outbox = [([0xFF, 0xFF, 0xFF, 0xFF, 0x55, 0, 0, 0, 0], sample_address)]\<rparr>\<rparr>)"
    using tr ir by simp
  have c: "sock_closed (socket (A2SStream_del ?left))" using te by simp
  from a b c show ?thesis by simp
qed

section \<open>Properties of the record helper\<close>

lemma collect_defaults:
  assumes "fold collect_default ann (vals0, pr0) = (values, pr1)"
    and "distinct ann" and "set ann \<inter> fst ` set vals0 = {}"
  shows "map fst values = map fst vals0 @ ann
       \<and> (\<forall>n \<in> set ann. map_of values n = Some (default_of pr0 n))
       \<and> (\<forall>n. n \<notin> set ann \<longrightarrow> map_of values n = map_of vals0 n)"
  using assms
proof (induction ann arbitrary: vals0 pr0)
  case Nil
  then show ?case by simp
next
  case (Cons x ann)
  obtain vals1 pr' where step: "collect_default x (vals0, pr0) = (vals1, pr')" by fastforce
  have x0: "x \<notin> fst ` set vals0" using Cons.prems(3) by auto
  have v1: "vals1 = AList.update x (default_of pr0 x) vals0"
    using step by (auto simp: collect_default_def default_of_def split: option.splits)
  have pr': "\<forall>n. n \<noteq> x \<longrightarrow> default_of pr' n = default_of pr0 n"
    using step by (auto simp: collect_default_def default_of_def delete_conv split: option.splits)
  have k1: "map fst vals1 = map fst vals0 @ [x]"
    using x0 v1 by (simp add: update_keys)
  have disj: "set ann \<inter> fst ` set vals1 = {}"
  proof -
    have "set (map fst vals1) = set (map fst vals0 @ [x])" using k1 by simp
    then have "fst ` set vals1 = insert x (fst ` set vals0)" by simp
    then show ?thesis using Cons.prems(2,3) by auto
  qed
  have f: "fold collect_default ann (vals1, pr') = (values, pr1)"
    using Cons.prems(1) step by simp
  from Cons.IH [OF f _ disj] Cons.prems(2)
  have ih: "map fst values = map fst vals1 @ ann"
    "\<forall>n \<in> set ann. map_of values n = Some (default_of pr' n)"
    "\<forall>n. n \<notin> set ann \<longrightarrow> map_of values n = map_of vals1 n" by simp_all
  have a: "map fst values = map fst vals0 @ x # ann" using ih(1) k1 by simp
  have b: "\<forall>n \<in> set (x # ann). map_of values n = Some (default_of pr0 n)"
  proof
    fix n assume n: "n \<in> set (x # ann)"
    show "map_of values n = Some (default_of pr0 n)"
    proof (cases "n = x")
      case True
      then have "n \<notin> set ann" using Cons.prems(2) by simp
      then have "map_of values n = map_of vals1 n" using ih(3) by simp
      then show ?thesis using True v1 by (simp add: update_conv)
    next
      case False
      then have "n \<in> set ann" using n by simp
      then show ?thesis using ih(2) pr' False by simp
    qed
  qed
  have c: "\<forall>n. n \<notin> set (x # ann) \<longrightarrow> map_of values n = map_of vals0 n"
    using ih(3) v1 by (simp add: update_conv)
  from a b c show ?case by blast
qed

lemma copy_copy_props:
  assumes "copy_copy src h = (c, h1)" and "allocated h src"
  shows "next_addr h \<le> next_addr h1"
    and "\<forall>a < next_addr h. cells h1 a = cells h a"
    and "shallow_copy_of h h1 src c"
  using assms
  by (auto simp: copy_copy_def allocated_def shallow_copy_of_def split: pyval.splits)

lemma shallow_copy_of_extend:
  assumes "shallow_copy_of h1 h2 src v" and "allocated h src"
    and "next_addr h \<le> next_addr h1" and "\<forall>a < next_addr h. cells h1 a = cells h a"
  shows "shallow_copy_of h h2 src v"
  using assms
  by (auto simp: shallow_copy_of_def allocated_def split: pyval.splits)

lemma shallow_copy_of_later:
  assumes "shallow_copy_of h h1 src v" and "next_addr h1 \<le> next_addr h2"
    and "\<forall>a < next_addr h1. cells h2 a = cells h1 a"
  shows "shallow_copy_of h h2 src v"
  using assms
  by (auto simp: shallow_copy_of_def split: pyval.splits)

lemma allocated_mono: "allocated h v \<Longrightarrow> next_addr h \<le> next_addr h1 \<Longrightarrow> allocated h1 v"
  by (auto simp: allocated_def split: pyval.splits)

lemma init_fields_props:
  assumes "init_fields items kwargs attrs0 h = (attrs, h1)"
    and "distinct (map fst items)" and "fst ` set items \<inter> fst ` set attrs0 = {}"
    and "\<forall>(n, d) \<in> set items. allocated h (case kwargs n of Some v \<Rightarrow> v | None \<Rightarrow> d)"
  shows "map fst attrs = map fst attrs0 @ map fst items
       \<and> next_addr h \<le> next_addr h1
       \<and> (\<forall>a < next_addr h. cells h1 a = cells h a)
       \<and> (\<forall>(n, d) \<in> set items. \<exists>v. map_of attrs n = Some v
             \<and> shallow_copy_of h h1 (case kwargs n of Some v \<Rightarrow> v | None \<Rightarrow> d) v)
       \<and> (\<forall>n. n \<notin> fst ` set items \<longrightarrow> map_of attrs n = map_of attrs0 n)"
  using assms
proof (induction items arbitrary: attrs0 h)
  case Nil
  then show ?case by simp
next
  case (Cons item items)
  obtain name d where item: "item = (name, d)" by fastforce
  let ?src = "case kwargs name of Some v \<Rightarrow> v | None \<Rightarrow> d"
  obtain c h' where cc: "copy_copy ?src h = (c, h')" by fastforce
  have al: "allocated h ?src" using Cons.prems(4) item by simp
  note cp = copy_copy_props [OF cc al]
  have rec: "init_fields items kwargs (AList.update name c attrs0) h' = (attrs, h1)"
    using Cons.prems(1) item cc by simp
  have n0: "name \<notin> fst ` set attrs0" using Cons.prems(3) item by auto
  have k1: "map fst (AList.update name c attrs0) = map fst attrs0 @ [name]"
    using n0 by (simp add: update_keys)
  have "set (map fst (AList.update name c attrs0)) = set (map fst attrs0 @ [name])"
    using k1 by simp
  then have keys: "fst ` set (AList.update name c attrs0) = insert name (fst ` set attrs0)" by simp
  have nn: "name \<notin> fst ` set items" using Cons.prems(2) item by simp
  have disj: "fst ` set items \<inter> fst ` set (AList.update name c attrs0) = {}"
    using Cons.prems(3) keys nn by auto
  have dist: "distinct (map fst items)" using Cons.prems(2) by simp
  have al': "\<forall>(n, d) \<in> set items. allocated h' (case kwargs n of Some v \<Rightarrow> v | None \<Rightarrow> d)"
    using Cons.prems(4) cp(1) by (auto intro: allocated_mono)
  from Cons.IH [OF rec dist disj al']
  have ih: "map fst attrs = map fst (AList.update name c attrs0) @ map fst items"
    "next_addr h' \<le> next_addr h1"
    "\<forall>a < next_addr h'. cells h1 a = cells h' a"
    "\<forall>(n, d) \<in> set items. \<exists>v. map_of attrs n = Some v
        \<and> shallow_copy_of h' h1 (case kwargs n of Some v \<Rightarrow> v | None \<Rightarrow> d) v"
    "\<forall>n. n \<notin> fst ` set items \<longrightarrow> map_of attrs n = map_of (AList.update name c attrs0) n"
    by simp_all
  have a: "map fst attrs = map fst attrs0 @ map fst (item # items)"
    using ih(1) k1 item by simp
  have b: "next_addr h \<le> next_addr h1" using cp(1) ih(2) by simp
  have c: "\<forall>a < next_addr h. cells h1 a = cells h a"
    using cp(1,2) ih(3) by auto
  have d: "\<forall>(n, d) \<in> set (item # items). \<exists>v. map_of attrs n = Some v
        \<and> shallow_copy_of h h1 (case kwargs n of Some v \<Rightarrow> v | None \<Rightarrow> d) v"
  proof -
    have "map_of attrs name = Some c" using ih(5) nn by (simp add: update_conv)
    moreover have "shallow_copy_of h h1 ?src c"
      using cp(3) ih(2,3) by (rule shallow_copy_of_later)
    moreover have "\<exists>v. map_of attrs n = Some v
        \<and> shallow_copy_of h h1 (case kwargs n of Some v \<Rightarrow> v | None \<Rightarrow> d') v"
      if "(n, d') \<in> set items" for n d'
    proof -
      from ih(4) that obtain v where v: "map_of attrs n = Some v"
        "shallow_copy_of h' h1 (case kwargs n of Some v \<Rightarrow> v | None \<Rightarrow> d') v" by auto
      have "allocated h (case kwargs n of Some v \<Rightarrow> v | None \<Rightarrow> d')"
        using Cons.prems(4) that by auto
      with v(2) have "shallow_copy_of h h1 (case kwargs n of Some v \<Rightarrow> v | None \<Rightarrow> d') v"
        using cp(1,2) by (rule shallow_copy_of_extend)
      with v(1) show ?thesis by blast
    qed
    ultimately show ?thesis using item by auto
  qed
  have e: "\<forall>n. n \<notin> fst ` set (item # items) \<longrightarrow> map_of attrs n = map_of attrs0 n"
    using ih(5) item by (simp add: update_conv)
  from a b c d e show ?case by blast
qed

lemma init_fields_restrict:
  "fst ` set items \<subseteq> S \<Longrightarrow>
   init_fields items (kwargs |` S) attrs0 h = init_fields items kwargs attrs0 h"
proof (induction items arbitrary: attrs0 h)
  case Nil
  then show ?case by simp
next
  case (Cons item items)
  obtain name d where item: "item = (name, d)" by fastforce
  then have "name \<in> S" using Cons.prems by simp
  then have "(kwargs |` S) name = kwargs name" by simp
  moreover have "fst ` set items \<subseteq> S" using Cons.prems by simp
  ultimately show ?case using Cons.IH item by (simp split: prod.splits)
qed

lemma default_allocated:
  assumes "\<forall>v \<in> snd ` set prop. allocated h v"
  shows "allocated h (default_of prop n)"
proof (cases "map_of prop n")
  case None
  then show ?thesis by (simp add: default_of_def allocated_def)
next
  case (Some d)
  then have "(n, d) \<in> set prop" by (rule map_of_SomeD)
  then have "d \<in> snd ` set prop" by force
  with assms have "allocated h d" by blast
  with Some show ?thesis by (simp add: default_of_def)
qed

lemma datacls_instance:
  assumes "DataclsMeta_new name bases prop = Inr cls"
    and "annotations prop = Some ann" and "distinct ann"
    and "\<forall>v \<in> ran kwargs \<union> snd ` set (members prop). allocated h v"
    and "DataclsBase_init cls kwargs h = (attrs, h1)"
  shows "slots cls = ann" and "map fst (defaults cls) = ann"
    and "\<forall>n \<in> set ann. map_of (defaults cls) n = Some (default_of (members prop) n)"
    and "map fst attrs = ann"
    and "\<forall>n \<in> set ann. \<exists>v. map_of attrs n = Some v
           \<and> shallow_copy_of h h1 (field_source prop kwargs n) v"
    and "\<forall>a. PRef a \<in> snd ` set attrs \<longrightarrow> next_addr h \<le> a \<and> a < next_addr h1"
    and "next_addr h \<le> next_addr h1"
    and "\<forall>a < next_addr h. cells h1 a = cells h a"
proof -
  obtain vals pr1 where f: "fold collect_default ann ([], members prop) = (vals, pr1)"
    by fastforce
  with assms(1,2) have cls: "slots cls = map fst vals" "defaults cls = vals"
    by (auto simp: DataclsMeta_new_def)
  from collect_defaults [OF f assms(3)]
  have v: "map fst vals = ann"
    "\<forall>n \<in> set ann. map_of vals n = Some (default_of (members prop) n)" by simp_all
  show "slots cls = ann" "map fst (defaults cls) = ann"
    "\<forall>n \<in> set ann. map_of (defaults cls) n = Some (default_of (members prop) n)"
    using cls v by simp_all
  have dv: "distinct (map fst vals)" using v(1) assms(3) by simp
  have item: "d = default_of (members prop) n \<and> n \<in> set ann" if "(n, d) \<in> set vals" for n d
  proof -
    from that have "n \<in> set (map fst vals)" by force
    then have n: "n \<in> set ann" using v(1) by simp
    from that dv have "map_of vals n = Some d" by simp
    with v(2) n show ?thesis by simp
  qed
  have kw: "allocated h w" if "kwargs n = Some w" for n w
  proof -
    from that have "w \<in> ran kwargs" by (rule ranI)
    with assms(4) show ?thesis by simp
  qed
  have df: "\<forall>v \<in> snd ` set (members prop). allocated h v" using assms(4) by simp
  have al: "\<forall>(n, d) \<in> set vals. allocated h (case kwargs n of Some v \<Rightarrow> v | None \<Rightarrow> d)"
  proof (clarify)
    fix n d assume nd: "(n, d) \<in> set vals"
    show "allocated h (case kwargs n of Some v \<Rightarrow> v | None \<Rightarrow> d)"
    proof (cases "kwargs n")
      case None
      then show ?thesis using item [OF nd] default_allocated [OF df] by simp
    next
      case (Some w)
      then show ?thesis using kw by simp
    qed
  qed
  have init: "init_fields vals kwargs [] h = (attrs, h1)"
    using assms(5) cls(2) by (simp add: DataclsBase_init_def)
  from init_fields_props [OF init dv _ al]
  have p: "map fst attrs = map fst vals" "next_addr h \<le> next_addr h1"
    "\<forall>a < next_addr h. cells h1 a = cells h a"
    "\<forall>(n, d) \<in> set vals. \<exists>v. map_of attrs n = Some v
        \<and> shallow_copy_of h h1 (case kwargs n of Some v \<Rightarrow> v | None \<Rightarrow> d) v"
    by simp_all
  show "map fst attrs = ann" using p(1) v(1) by simp
  show "next_addr h \<le> next_addr h1" by (rule p(2))
  show "\<forall>a < next_addr h. cells h1 a = cells h a" by (rule p(3))
  show fields: "\<forall>n \<in> set ann. \<exists>v. map_of attrs n = Some v
           \<and> shallow_copy_of h h1 (field_source prop kwargs n) v"
  proof
    fix n assume n: "n \<in> set ann"
    with v(2) have "map_of vals n = Some (default_of (members prop) n)" by simp
    then have "(n, default_of (members prop) n) \<in> set vals" by (rule map_of_SomeD)
    with p(4) have "\<exists>v. map_of attrs n = Some v \<and> shallow_copy_of h h1
        (case kwargs n of Some v \<Rightarrow> v | None \<Rightarrow> default_of (members prop) n) v" by fast
    then show "\<exists>v. map_of attrs n = Some v \<and> shallow_copy_of h h1 (field_source prop kwargs n) v"
      by (simp add: field_source_def)
  qed
  show "\<forall>a. PRef a \<in> snd ` set attrs \<longrightarrow> next_addr h \<le> a \<and> a < next_addr h1"
  proof (intro allI impI)
    fix a assume "PRef a \<in> snd ` set attrs"
    then obtain n where na: "(n, PRef a) \<in> set attrs" by force
    then have "n \<in> set (map fst attrs)" by force
    then have n: "n \<in> set ann" using p(1) v(1) by simp
    have "distinct (map fst attrs)" using p(1) dv by simp
    with na have "map_of attrs n = Some (PRef a)" by simp
    with fields n have "shallow_copy_of h h1 (field_source prop kwargs n) (PRef a)" by auto
    then show "next_addr h \<le> a \<and> a < next_addr h1"
      by (auto simp: shallow_copy_of_def split: pyval.splits)
  qed
qed

text \<open>
  Claim C10, as the code has it. For a class built by \<open>DataclsMeta\<close> from a body with the
  annotated names \<open>ann\<close>, and an instance made with \<open>kwargs\<close>: the attributes set are
  exactly the annotated names, in order; each holds a shallow copy of its source, the keyword
  argument when the name is among \<open>kwargs\<close> and the declared default (\<open>None\<close> when
  none was declared) otherwise; no object an attribute refers to is referred to by an
  attribute of a second instance, by a class variable or by a keyword argument; the objects
  that existed before are unchanged; and the keyword arguments whose names are not annotated
  make no difference.
\<close>

theorem datacls_init:
  assumes "DataclsMeta_new name bases prop = Inr cls"
    and "annotations prop = Some ann" and "distinct ann"
    and "\<forall>v \<in> ran kwargs \<union> snd ` set (members prop). allocated h v"
    and "DataclsBase_init cls kwargs h = (attrs, h1)"
    and "\<forall>v \<in> ran kwargs2. allocated h1 v"
    and "DataclsBase_init cls kwargs2 h1 = (attrs2, h2)"
  shows "map fst attrs = ann
       \<and> (\<forall>n \<in> set ann. \<exists>v. map_of attrs n = Some v
             \<and> shallow_copy_of h h1 (field_source prop kwargs n) v)
       \<and> (\<forall>a. PRef a \<in> snd ` set attrs \<longrightarrow>
             PRef a \<notin> snd ` set attrs2 \<and> PRef a \<notin> snd ` set (members prop)
             \<and> PRef a \<notin> ran kwargs)
       \<and> (\<forall>a < next_addr h. cells h1 a = cells h a)
       \<and> DataclsBase_init cls (kwargs |` set ann) h = (attrs, h1)"
proof -
  note i1 = datacls_instance [OF assms(1,2,3,4,5)]
  have al2: "\<forall>v \<in> ran kwargs2 \<union> snd ` set (members prop). allocated h1 v"
    using assms(4,6) i1(7) by (auto intro: allocated_mono)
  note i2 = datacls_instance [OF assms(1,2,3) al2 assms(7)]
  have share: "\<forall>a. PRef a \<in> snd ` set attrs \<longrightarrow>
             PRef a \<notin> snd ` set attrs2 \<and> PRef a \<notin> snd ` set (members prop)
             \<and> PRef a \<notin> ran kwargs"
  proof (intro allI impI)
    fix a assume "PRef a \<in> snd ` set attrs"
    with i1(6) have r: "next_addr h \<le> a" "a < next_addr h1" by simp_all
    have "PRef a \<notin> snd ` set attrs2" using i2(6) r(2) by fastforce
    moreover have "PRef a \<notin> ran kwargs \<union> snd ` set (members prop)"
    proof
      assume "PRef a \<in> ran kwargs \<union> snd ` set (members prop)"
      with assms(4) have "allocated h (PRef a)" by blast
      then have "a < next_addr h" by (simp add: allocated_def)
      with r(1) show False by simp
    qed
    ultimately show "PRef a \<notin> snd ` set attrs2 \<and> PRef a \<notin> snd ` set (members prop)
             \<and> PRef a \<notin> ran kwargs" by simp
  qed
  have "fst ` set (defaults cls) \<subseteq> set ann" using i1(2) by (metis list.set_map order_refl)
  then have "DataclsBase_init cls (kwargs |` set ann) h = DataclsBase_init cls kwargs h"
    unfolding DataclsBase_init_def by (rule init_fields_restrict)
  with i1(4,5,8) share assms(5) show ?thesis by simp
qed

lemmas datacls_eval =
  DataclsMeta_new_def collect_default_def DataclsBase_init_def copy_copy_def
  sample_namespace_def sample_cls_def sample_heap_def

text \<open>
  A list passed as keyword argument: the attribute refers to a new list, not to the list that
  was passed.
\<close>

theorem datacls_init_counterexample:
  "DataclsMeta_new ''Sample'' [] sample_namespace = Inr sample_cls
   \<and> DataclsBase_init sample_cls [''tags'' \<mapsto> PRef 1] sample_heap =
       ([(''name'', PNone), (''tags'', PRef 2), (''score'', PInt 0)],
        sample_heap\<lparr>cells := (cells sample_heap)(2 := PList [PInt 7]), next_addr := 3\<rparr>)
   \<and> map_of (fst (DataclsBase_init sample_cls [''tags'' \<mapsto> PRef 1] sample_heap)) ''tags''
       \<noteq> Some (PRef 1)"
  by (simp add: datacls_eval)

theorem datacls_init_witness:
  "DataclsBase_init sample_cls [''name'' \<mapsto> PStr ''bob'', ''extra'' \<mapsto> PInt 5] sample_heap =
       ([(''name'', PStr ''bob''), (''tags'', PRef 2), (''score'', PInt 0)],
        sample_heap\<lparr>cells := (cells sample_heap)(2 := PList [PStr ''a'']), next_addr := 3\<rparr>)
   \<and> DataclsBase_init sample_cls [''tags'' \<mapsto> PRef 1]
        (sample_heap\<lparr>cells := (cells sample_heap)(2 := PList [PStr ''a'']), next_addr := 3\<rparr>) =
       ([(''name'', PNone), (''tags'', PRef 3), (''score'', PInt 0)],
        sample_heap\<lparr>cells := (cells sample_heap)(2 := PList [PStr ''a''], 3 := PList [PInt 7]),
          next_addr := 4\<rparr>)
   \<and> DataclsBase_init sample_cls
        ([''name'' \<mapsto> PStr ''bob'', ''extra'' \<mapsto> PInt 5] |` set [''name'', ''tags'', ''score''])
        sample_heap =
       ([(''name'', PStr ''bob''), (''tags'', PRef 2), (''score'', PInt 0)],
        sample_heap\<lparr>cells := (cells sample_heap)(2 := PList [PStr ''a'']), next_addr := 3\<rparr>)
   \<and> PRef 2 \<notin> snd ` set [(''name'', PNone), (''tags'', PRef 3), (''score'', PInt 0)]"
proof -
  let ?kw = "[''name'' \<mapsto> PStr ''bob'', ''extra'' \<mapsto> PInt 5]"
  let ?kw2 = "[''tags'' \<mapsto> PRef 1]"
  let ?h1 = "sample_heap\<lparr>cells := (cells sample_heap)(2 := PList [PStr ''a'']), next_addr := 3\<rparr>"
  let ?h2 = "sample_heap\<lparr>cells := (cells sample_heap)(2 := PList [PStr ''a''], 3 := PList [PInt 7]),
          next_addr := 4\<rparr>"
  let ?attrs = "[(''name'', PStr ''bob''), (''tags'', PRef 2), (''score'', PInt 0)]"
  let ?attrs2 = "[(''name'', PNone), (''tags'', PRef 3), (''score'', PInt 0)]"
  have c: "DataclsMeta_new ''Sample'' [] sample_namespace = Inr sample_cls"
    by (simp add: datacls_eval)
  have a: "annotations sample_namespace = Some [''name'', ''tags'', ''score'']"
    by (simp add: sample_namespace_def)
  have d: "distinct [''name'', ''tags'', ''score'']" by simp
  have al: "\<forall>v \<in> ran ?kw \<union> snd ` set (members sample_namespace). allocated sample_heap v"
    by (auto simp: ran_def allocated_def sample_namespace_def sample_heap_def split: if_splits)
  have i1: "DataclsBase_init sample_cls ?kw sample_heap = (?attrs, ?h1)"
    by (simp add: datacls_eval)
  have al2: "\<forall>v \<in> ran ?kw2. allocated ?h1 v"
    by (auto simp: ran_def allocated_def split: if_splits)
  have i2: "DataclsBase_init sample_cls ?kw2 ?h1 = (?attrs2, ?h2)"
    by (simp add: datacls_eval fun_upd_twist)
  from datacls_init [OF c a d al i1 al2 i2]
  have "DataclsBase_init sample_cls (?kw |` set [''name'', ''tags'', ''score'']) sample_heap = (?attrs, ?h1)"
    and "\<forall>a. PRef a \<in> snd ` set ?attrs \<longrightarrow> PRef a \<notin> snd ` set ?attrs2"
    by blast+
  then show ?thesis using i1 i2 by simp
qed

end
